theory Spec2Isabelle
  imports Complex_Main "HOL-Library.Char_ord" "HOL-Library.List_Lexorder"
begin

section \<open>Data model of \<open>viewer/main.py\<close>\<close>

text \<open>
  A line of the trace file, with the column names \<open>read_csv\<close> gives it
  (\<open>COLUMNS = ['rank0', 't0', 'rank1', 't1', 'kind']\<close>). Times are of any linearly
  ordered type with a subtraction (the integers, the rationals): the sampling code only
  compares them. Kinds are strings, ordered as Python orders them (by code point,
  lexicographically).
\<close>

record 't csv_row =
  rank0 :: int
  t0 :: 't
  rank1 :: int
  t1 :: 't
  kind :: string

text \<open>
  A row of the data frame after \<open>read_csv\<close>: the five columns, the derived column
  \<open>duration\<close>, and the column \<open>line\<close> (the number of the row in the file) that
  \<open>rename_axis('line')\<close> names and \<open>reset_index\<close> turns into a column.
\<close>

record 't event = "'t csv_row" +
  duration :: 't
  line :: nat

text \<open>A row after \<open>add_rank_pos\<close>: the three columns it assigns.\<close>

record 't placed_event = "'t event" +
  rank0_pos :: rat
  height :: rat
  rank1_pos :: rat

text \<open>
  The two ordered dictionaries of \<open>TimelineTrace\<close>, as association lists in dictionary
  order: \<open>__data\<close> maps a kind to its frame (a list of rows, the position in the list
  being the index after \<open>reset_index\<close>), \<open>__t1_index\<close> maps a kind to the series
  \<open>kind_df['t1'].sort_values()\<close>, a list of (index label, value) pairs in ascending value
  order.
\<close>

record 't trace =
  data :: "(string \<times> 't event list) list"
  t1_index :: "(string \<times> (nat \<times> 't) list) list"

datatype error =
  SampleValueError    \<comment> \<open>\<open>random.sample\<close>: sample larger than population or is negative\<close>
  | ConcatValueError  \<comment> \<open>\<open>pandas.concat\<close>: no objects to concatenate\<close>
  | IndexError        \<comment> \<open>\<open>iloc\<close>: positional indexers are out-of-bounds\<close>

section \<open>Library operations the code calls\<close>

text \<open>
  \<open>searchsorted(v)\<close> on an ascending sequence: with side \<open>'left'\<close> the first position
  whose value is not below \<open>v\<close>, with side \<open>'right'\<close> the first position whose value is
  above \<open>v\<close>; the length when there is none.
\<close>

definition searchsorted_left :: "'a::linorder list \<Rightarrow> 'a \<Rightarrow> nat" where
  "searchsorted_left xs v = length (takeWhile (\<lambda>x. x < v) xs)"

definition searchsorted_right :: "'a::linorder list \<Rightarrow> 'a \<Rightarrow> nat" where
  "searchsorted_right xs v = length (takeWhile (\<lambda>x. x \<le> v) xs)"

text \<open>\<open>numpy.cumsum\<close>: the running sums.\<close>

fun cumsum_from :: "int \<Rightarrow> int list \<Rightarrow> int list" where
  "cumsum_from acc [] = []"
| "cumsum_from acc (x # xs) = (acc + x) # cumsum_from (acc + x) xs"

definition cumsum :: "int list \<Rightarrow> int list" where
  "cumsum xs = cumsum_from 0 xs"

text \<open>\<open>range(n)\<close> as a list: empty when \<open>n \<le> 0\<close>.\<close>

definition py_range :: "int \<Rightarrow> int list" where
  "py_range n = [0..n - 1]"

text \<open>
  \<open>random.sample(population, k)\<close>: raises \<open>ValueError\<close> unless
  \<open>0 \<le> k \<le> len(population)\<close>, and otherwise returns \<open>k\<close> elements of the population
  at distinct positions. The random source is the parameter \<open>draw\<close>: the list the call
  returns. What the library promises of it is \<open>valid_draw\<close>.
\<close>

definition random_sample :: "int list \<Rightarrow> int \<Rightarrow> int list \<Rightarrow> error + int list" where
  "random_sample population k draw =
     (if 0 \<le> k \<and> k \<le> int (length population) then Inr draw else Inl SampleValueError)"

definition valid_draw :: "int \<Rightarrow> int \<Rightarrow> int list \<Rightarrow> bool" where
  "valid_draw n k draw \<longleftrightarrow>
     int (length draw) = k \<and> distinct draw \<and> list_all (\<lambda>x. 0 \<le> x \<and> x < n) draw"

text \<open>A slice \<open>a[l:r]\<close> with \<open>0 \<le> l\<close> and \<open>0 \<le> r\<close>: empty when \<open>r \<le> l\<close>.\<close>

definition py_slice :: "nat \<Rightarrow> nat \<Rightarrow> 'a list \<Rightarrow> 'a list" where
  "py_slice l r xs = take (r - l) (drop l xs)"

text \<open>
  \<open>df.iloc[idxs]\<close> with an array of positions: a negative position counts from the end,
  a position outside \<open>[-n, n)\<close> raises \<open>IndexError\<close>. An empty array selects no row,
  whatever its element type.
\<close>

definition iloc :: "'a list \<Rightarrow> int list \<Rightarrow> error + 'a list" where
  "iloc df idxs =
     (let n = int (length df) in
      if list_all (\<lambda>i. - n \<le> i \<and> i < n) idxs
      then Inr (map (\<lambda>i. df ! nat (if i < 0 then i + n else i)) idxs)
      else Inl IndexError)"

text \<open>
  \<open>pandas.concat\<close> of the frames a generator yields: the first frame that fails to
  evaluate raises, no frame at all raises \<open>ValueError\<close>, otherwise the rows in order.
\<close>

fun collect :: "(error + 'a) list \<Rightarrow> error + 'a list" where
  "collect [] = Inr []"
| "collect (Inl e # rs) = Inl e"
| "collect (Inr x # rs) = (case collect rs of Inl e \<Rightarrow> Inl e | Inr xs \<Rightarrow> Inr (x # xs))"

definition pandas_concat :: "(error + 'a list) list \<Rightarrow> error + 'a list" where
  "pandas_concat frames =
     (case collect frames of
        Inl e \<Rightarrow> Inl e
      | Inr fs \<Rightarrow> if fs = [] then Inl ConcatValueError else Inr (concat fs))"

section \<open>\<open>TimelineTrace.read_csv\<close>\<close>

text \<open>
  \<open>df.groupby('kind')\<close>, iterated: one (key, frame) pair per distinct kind, the keys in
  ascending order (\<open>groupby\<close> sorts the group keys unless told \<open>sort=False\<close>), each frame
  holding the rows of that kind in the order they have in \<open>df\<close>.
\<close>

definition groupby_kind :: "'t event list \<Rightarrow> (string \<times> 't event list) list" where
  "groupby_kind df =
     map (\<lambda>k. (k, filter (\<lambda>e. kind e = k) df)) (sort (remdups (map kind df)))"

text \<open>
  \<open>read_csv\<close>, from the parsed rows on: the column \<open>duration\<close>, the sort by \<open>t0\<close>, the
  grouping by kind, and for each kind the frame renumbered from 0 and the series of its
  \<open>t1\<close> values sorted ascending. (\<open>sort_values\<close> is modelled by a stable sort; the code
  leaves the order of equal keys to the library, and nothing below depends on it. The
  members \<open>__columns\<close>, \<open>__time_min\<close>, \<open>__time_max\<close> are not read by the sampling code and
  are left out.)
\<close>

definition read_csv :: "('t::{linorder,minus}) csv_row list \<Rightarrow> 't trace" where
  "read_csv rows =
     (let df = map (\<lambda>(i, r). \<lparr>rank0 = rank0 r, t0 = t0 r, rank1 = rank1 r, t1 = t1 r,
                              kind = kind r, duration = t1 r - t0 r, line = i\<rparr>)
                   (enumerate 0 rows);
          df = sort_key t0 df;
          groups = groupby_kind df
      in \<lparr>data = groups,
          t1_index = map (\<lambda>(k, kind_df).
                       (k, sort_key snd (enumerate 0 (map t1 kind_df)))) groups\<rparr>)"

definition get_kinds :: "'t trace \<Rightarrow> string list" where
  "get_kinds tr = map fst (data tr)"

section \<open>\<open>TimelineTrace.get_sampled_time_slice\<close>\<close>

definition index_start :: "('t::linorder) trace \<Rightarrow> 't \<Rightarrow> string set \<Rightarrow> int list" where
  "index_start tr ts kinds =
     map (\<lambda>(kind, t1_ser).
            if kind \<in> kinds then int (searchsorted_left (map snd t1_ser) ts) else 0)
         (t1_index tr)"

definition index_end :: "('t::linorder) trace \<Rightarrow> 't \<Rightarrow> string set \<Rightarrow> int list" where
  "index_end tr te kinds =
     map (\<lambda>(kind, kind_df).
            if kind \<in> kinds then int (searchsorted_right (map t0 kind_df) te) else 0)
         (data tr)"

definition num_list :: "('t::linorder) trace \<Rightarrow> 't \<times> 't \<Rightarrow> string set \<Rightarrow> int list" where
  "num_list tr time_range kinds =
     map2 (\<lambda>e s. e - s) (index_end tr (snd time_range) kinds)
                         (index_start tr (fst time_range) kinds)"

definition num_sum_right :: "('t::linorder) trace \<Rightarrow> 't \<times> 't \<Rightarrow> string set \<Rightarrow> int list" where
  "num_sum_right tr time_range kinds = cumsum (num_list tr time_range kinds)"

definition num_total :: "('t::linorder) trace \<Rightarrow> 't \<times> 't \<Rightarrow> string set \<Rightarrow> int" where
  "num_total tr time_range kinds =
     (let nsr = num_sum_right tr time_range kinds
      in if length nsr > 0 then nsr ! (length nsr - 1) else 0)"

definition num_sum_left :: "('t::linorder) trace \<Rightarrow> 't \<times> 't \<Rightarrow> string set \<Rightarrow> int list" where
  "num_sum_left tr time_range kinds =
     (let nsr = num_sum_right tr time_range kinds
      in map (\<lambda>i. if i = 0 then 0 else nsr ! (i - 1)) [0..<length nsr])"

text \<open>
  The sorted virtual indices: all of \<open>range(num_total)\<close>, or the draw of
  \<open>random.sample\<close> when the total exceeds the budget.
\<close>

definition sampled_idxs ::
  "('t::linorder) trace \<Rightarrow> 't \<times> 't \<Rightarrow> string set \<Rightarrow> int \<Rightarrow> int list \<Rightarrow> error + int list" where
  "sampled_idxs tr time_range kinds num_samples draw =
     (let total = num_total tr time_range kinds;
          idxs = py_range total
      in if total > num_samples
         then (case random_sample idxs num_samples draw of
                 Inl e \<Rightarrow> Inl e
               | Inr d \<Rightarrow> Inr (sort d))
         else Inr (sort idxs))"

definition local_sampled_idxs ::
  "('t::linorder) trace \<Rightarrow> 't \<times> 't \<Rightarrow> string set \<Rightarrow> int list \<Rightarrow> int list list" where
  "local_sampled_idxs tr time_range kinds sampled =
     (let nsl = num_sum_left tr time_range kinds;
          nsr = num_sum_right tr time_range kinds;
          si_left = map (searchsorted_left sampled) nsl;
          si_right = map (searchsorted_left sampled) nsr
      in map (\<lambda>(l, r, ns). map (\<lambda>s. s - ns) (py_slice l r sampled))
             (zip si_left (zip si_right nsl)))"

text \<open>
  The positions \<open>idx_start+idxs\<close> handed to \<open>iloc\<close>, one list for each kind of the
  index: the events a call selects, each named by its kind and its position in the frame
  of the kind.
\<close>

definition selected_positions ::
  "('t::linorder) trace \<Rightarrow> 't \<times> 't \<Rightarrow> string set \<Rightarrow> int list \<Rightarrow> int list list" where
  "selected_positions tr time_range kinds sampled =
     map (\<lambda>(idx_start, idxs). map (\<lambda>i. idx_start + i) idxs)
         (zip (index_start tr (fst time_range) kinds)
              (local_sampled_idxs tr time_range kinds sampled))"

text \<open>
  The call: \<open>Inl\<close> an exception, \<open>Inr\<close> the pair of the slice (the rows of its frame, in
  order) and \<open>num_total\<close>.
\<close>

definition get_sampled_time_slice ::
  "('t::linorder) trace \<Rightarrow> 't \<times> 't \<Rightarrow> string set \<Rightarrow> int \<Rightarrow> int list
     \<Rightarrow> error + ('t event list \<times> int)" where
  "get_sampled_time_slice tr time_range kinds num_samples draw =
     (case sampled_idxs tr time_range kinds num_samples draw of
        Inl e \<Rightarrow> Inl e
      | Inr sampled \<Rightarrow>
          (case pandas_concat
                  (map (\<lambda>(df, positions). iloc df positions)
                       (zip (map snd (data tr))
                            (selected_positions tr time_range kinds sampled))) of
             Inl e \<Rightarrow> Inl e
           | Inr sub_data \<Rightarrow> Inr (sub_data, num_total tr time_range kinds)))"

text \<open>
  The draw is read only when \<open>random.sample\<close> is called and returns; it is then a valid
  draw of \<open>num_samples\<close> indices below \<open>num_total\<close>.
\<close>

definition draw_ok ::
  "('t::linorder) trace \<Rightarrow> 't \<times> 't \<Rightarrow> string set \<Rightarrow> int \<Rightarrow> int list \<Rightarrow> bool" where
  "draw_ok tr time_range kinds num_samples draw \<longleftrightarrow>
     (0 \<le> num_samples \<and> num_samples < num_total tr time_range kinds
        \<longrightarrow> valid_draw (num_total tr time_range kinds) num_samples draw)"

section \<open>\<open>TimelineTraceSlice.add_rank_pos\<close>\<close>

text \<open>
  The frame of a slice is renumbered from 0 when the slice is made, so the index of a row
  is its position. Ranks and the lane count are integers; the derived columns are
  computed in exact rational arithmetic here, the rounding of floating point left aside.
\<close>

definition add_rank_pos :: "int \<Rightarrow> 't event list \<Rightarrow> 't placed_event list" where
  "add_rank_pos num_conc df =
     map (\<lambda>(i, e).
            let r0p = of_int (rank0 e) + (of_int (int i mod num_conc) + 1 / 2) / of_int num_conc
            in \<lparr>rank0 = rank0 e, t0 = t0 e, rank1 = rank1 e, t1 = t1 e, kind = kind e,
                duration = duration e, line = line e,
                rank0_pos = r0p,
                height = 1 / of_int num_conc,
                rank1_pos = (if rank0 e = rank1 e then r0p else of_int (rank1 e) + 1 / 2)\<rparr>)
         (enumerate 0 df)"


section \<open>Inputs and notions used in the statements\<close>

text \<open>A line of the trace file, written by its five fields.\<close>

definition csv_line :: "int \<Rightarrow> 't \<Rightarrow> int \<Rightarrow> 't \<Rightarrow> string \<Rightarrow> 't csv_row" where
  "csv_line r0 a r1 b k = \<lparr>rank0 = r0, t0 = a, rank1 = r1, t1 = b, kind = k\<rparr>"

text \<open>
  The order the specification names for the kinds: each kind once, in the order of its
  first occurrence. (This follows the words of the specification, not the code.)
\<close>

fun first_seen_order :: "'a list \<Rightarrow> 'a list" where
  "first_seen_order [] = []"
| "first_seen_order (x # xs) = x # first_seen_order (filter (\<lambda>y. y \<noteq> x) xs)"

section \<open>Auxiliary definitions of the proofs\<close>

text \<open>The left offsets, by recursion: each kind starts where the one before ends.\<close>

fun lefts_from :: "int \<Rightarrow> int list \<Rightarrow> int list" where
  "lefts_from acc [] = []"
| "lefts_from acc (c # cs) = acc # lefts_from (acc + c) cs"

text \<open>
  The local indices, by recursion over the counts: the kind that owns the virtual indices
  \<open>[acc, acc + c)\<close> gets the sampled indices of that interval, shifted to start at 0.
\<close>

fun locals_from :: "int \<Rightarrow> int list \<Rightarrow> int list \<Rightarrow> int list list" where
  "locals_from acc xs [] = []"
| "locals_from acc xs (c # cs) =
     map (\<lambda>s. s - acc) (filter (\<lambda>s. acc \<le> s \<and> s < acc + c) xs) # locals_from (acc + c) xs cs"

text \<open>The rows selected, by recursion over the frames with their bounds.\<close>

fun rows_from :: "int \<Rightarrow> int list \<Rightarrow> ('a list \<times> int \<times> int) list \<Rightarrow> 'a list list" where
  "rows_from acc xs [] = []"
| "rows_from acc xs ((df, lo, hi) # rest) =
     map (\<lambda>s. df ! nat (lo + (s - acc))) (filter (\<lambda>s. acc \<le> s \<and> s < acc + (hi - lo)) xs)
       # rows_from (acc + (hi - lo)) xs rest"

text \<open>The two bounds of a kind, read off its frame.\<close>

definition lo_of :: "string set \<Rightarrow> 't::linorder \<Rightarrow> string \<times> 't event list \<Rightarrow> int" where
  "lo_of kinds ts = (\<lambda>(k, df).
     if k \<in> kinds then int (searchsorted_left (sort (map t1 df)) ts) else 0)"

definition hi_of :: "string set \<Rightarrow> 't::linorder \<Rightarrow> string \<times> 't event list \<Rightarrow> int" where
  "hi_of kinds te = (\<lambda>(k, df).
     if k \<in> kinds then int (searchsorted_right (map t0 df) te) else 0)"

definition bounds ::
  "('t::linorder) trace \<Rightarrow> 't \<times> 't \<Rightarrow> string set \<Rightarrow> ('t event list \<times> int \<times> int) list" where
  "bounds tr time_range kinds =
     map (\<lambda>p. (snd p, lo_of kinds (fst time_range) p, hi_of kinds (snd time_range) p)) (data tr)"

text \<open>What \<open>read_csv\<close> establishes of the two dictionaries.\<close>

definition wf_trace :: "('t::linorder) trace \<Rightarrow> bool" where
  "wf_trace tr \<longleftrightarrow>
     sorted_wrt (<) (map fst (data tr)) \<and>
     distinct (concat (map snd (data tr))) \<and>
     (\<forall>p \<in> set (data tr). sorted (map t0 (snd p)) \<and> snd p \<noteq> []
         \<and> (\<forall>e \<in> set (snd p). kind e = fst p)) \<and>
     t1_index tr = map (\<lambda>(k, kind_df). (k, sort_key snd (enumerate 0 (map t1 kind_df)))) (data tr)"

section \<open>Lemmas on the library operations and on the index\<close>

lemma takeWhile_filter_sorted:
  assumes "sorted xs" and "\<And>x y. x \<le> y \<Longrightarrow> P y \<Longrightarrow> P x"
  shows "takeWhile P xs = filter P xs"
  using assms(1)
proof (induction xs)
  case Nil
  then show ?case by simp
next
  case (Cons x xs)
  show ?case
  proof (cases "P x")
    case True
    with Cons show ?thesis by simp
  next
    case False
    have "\<not> P y" if "y \<in> set xs" for y
      using that Cons.prems False assms(2) [of x y] by auto
    then have "filter P xs = []" by (simp add: filter_empty_conv)
    with False show ?thesis by simp
  qed
qed

lemma searchsorted_left_count:
  "sorted xs \<Longrightarrow> searchsorted_left xs v = length (filter (\<lambda>x. x < v) xs)"
  unfolding searchsorted_left_def
  by (subst takeWhile_filter_sorted) auto

lemma searchsorted_right_count:
  "sorted xs \<Longrightarrow> searchsorted_right xs v = length (filter (\<lambda>x. x \<le> v) xs)"
  unfolding searchsorted_right_def
  by (subst takeWhile_filter_sorted) auto

lemma searchsorted_left_le: "searchsorted_left xs v \<le> length xs"
  unfolding searchsorted_left_def by (rule length_takeWhile_le)

lemma searchsorted_right_le: "searchsorted_right xs v \<le> length xs"
  unfolding searchsorted_right_def by (rule length_takeWhile_le)

lemma py_slice_searchsorted:
  "sorted xs \<Longrightarrow>
   py_slice (searchsorted_left xs a) (searchsorted_left xs b) xs
     = filter (\<lambda>x. a \<le> x \<and> x < b) xs"
proof (induction xs)
  case Nil
  then show ?case by (simp add: py_slice_def)
next
  case (Cons x xs)
  then have IH: "py_slice (searchsorted_left xs a) (searchsorted_left xs b) xs
     = filter (\<lambda>x. a \<le> x \<and> x < b) xs" by simp
  have ge: "x \<le> y" if "y \<in> set xs" for y using Cons.prems that by simp
  show ?case
  proof (cases "x < a")
    case xa: True
    show ?thesis
    proof (cases "x < b")
      case True
      with xa IH show ?thesis by (simp add: py_slice_def searchsorted_left_def)
    next
      case False
      then have "filter (\<lambda>x. a \<le> x \<and> x < b) xs = []"
        using ge by (auto simp: filter_empty_conv dest!: ge)
      with xa False show ?thesis by (simp add: py_slice_def searchsorted_left_def)
    qed
  next
    case xa: False
    have z: "searchsorted_left xs a = 0"
    proof (cases xs)
      case Nil
      then show ?thesis by (simp add: searchsorted_left_def)
    next
      case (Cons y ys)
      then have "x \<le> y" using ge by simp
      with xa have "\<not> y < a" by simp
      with Cons show ?thesis by (simp add: searchsorted_left_def)
    qed
    show ?thesis
    proof (cases "x < b")
      case True
      with xa IH z show ?thesis by (simp add: py_slice_def searchsorted_left_def)
    next
      case False
      then have "filter (\<lambda>x. a \<le> x \<and> x < b) xs = []"
        using ge by (auto simp: filter_empty_conv dest!: ge)
      with xa False show ?thesis by (simp add: py_slice_def searchsorted_left_def)
    qed
  qed
qed

lemma index_map_lefts:
  "map (\<lambda>i. if i = 0 then acc else cumsum_from acc cs ! (i - 1)) [0..<length (cumsum_from acc cs)]
     = lefts_from acc cs"
proof (induction cs arbitrary: acc)
  case Nil
  then show ?case by simp
next
  case (Cons c cs)
  have "map (\<lambda>i. if i = 0 then acc else cumsum_from acc (c # cs) ! (i - 1))
            [0..<length (cumsum_from acc (c # cs))]
        = acc # map (\<lambda>i. if i = 0 then acc + c else cumsum_from (acc + c) cs ! (i - 1))
                    [0..<length (cumsum_from (acc + c) cs)]"
    by (simp add: upt_conv_Cons map_Suc_upt [symmetric] nth_Cons' del: upt_Suc)
  then show ?case using Cons.IH [of "acc + c"] by simp
qed

lemma length_cumsum_from [simp]: "length (cumsum_from acc cs) = length cs"
  by (induction cs arbitrary: acc) auto

lemma length_lefts_from [simp]: "length (lefts_from acc cs) = length cs"
  by (induction cs arbitrary: acc) auto

lemma length_locals_from [simp]: "length (locals_from acc xs cs) = length cs"
  by (induction cs arbitrary: acc) auto

lemma last_cumsum_from:
  "(if length (cumsum_from acc cs) > 0
    then cumsum_from acc cs ! (length (cumsum_from acc cs) - 1) else acc) = acc + sum_list cs"
proof (induction cs arbitrary: acc)
  case Nil
  then show ?case by simp
next
  case (Cons c cs)
  show ?case using Cons.IH [of "acc + c"] by (cases cs) (auto simp: nth_Cons')
qed

lemma zipped_locals:
  "sorted xs \<Longrightarrow>
   map (\<lambda>(l, r, ns). map (\<lambda>s. s - ns) (py_slice l r xs))
       (zip (map (searchsorted_left xs) (lefts_from acc cs))
            (zip (map (searchsorted_left xs) (cumsum_from acc cs)) (lefts_from acc cs)))
     = locals_from acc xs cs"
  by (induction cs arbitrary: acc) (simp_all add: py_slice_searchsorted)

lemma local_sampled_idxs_locals:
  "sorted sampled \<Longrightarrow>
   local_sampled_idxs tr time_range kinds sampled
     = locals_from 0 sampled (num_list tr time_range kinds)"
  unfolding local_sampled_idxs_def num_sum_left_def num_sum_right_def cumsum_def Let_def
  by (simp only: index_map_lefts zipped_locals)

lemma num_total_sum:
  "num_total tr time_range kinds = sum_list (num_list tr time_range kinds)"
  unfolding num_total_def num_sum_right_def cumsum_def Let_def
  using last_cumsum_from [of 0 "num_list tr time_range kinds"] by simp

lemma map_sort_key: "map f (sort_key f xs) = sort (map f xs)"
proof (induction xs)
  case Nil
  then show ?case by simp
next
  case (Cons x xs)
  have "map f (insort_key f x ys) = insort (f x) (map f ys)" for ys
    by (induction ys) auto
  with Cons show ?case by simp
qed

lemma index_start_wf:
  "wf_trace tr \<Longrightarrow> index_start tr ts kinds = map (lo_of kinds ts) (data tr)"
  by (auto simp: wf_trace_def index_start_def lo_of_def map_sort_key split_def)

lemma index_end_hi: "index_end tr te kinds = map (hi_of kinds te) (data tr)"
  by (auto simp: index_end_def hi_of_def)

lemma num_list_wf:
  "wf_trace tr \<Longrightarrow>
   num_list tr time_range kinds
     = map (\<lambda>p. hi_of kinds (snd time_range) p - lo_of kinds (fst time_range) p) (data tr)"
  by (simp add: num_list_def index_start_wf index_end_hi zip_map_map zip_same_conv_map)

lemma num_list_bounds:
  "wf_trace tr \<Longrightarrow>
   num_list tr time_range kinds = map (\<lambda>(df, lo, hi). hi - lo) (bounds tr time_range kinds)"
  by (simp add: num_list_wf bounds_def)

lemma lo_of_range: "0 \<le> lo_of kinds ts p \<and> lo_of kinds ts p \<le> int (length (snd p))"
  using searchsorted_left_le [of "sort (map t1 (snd p))" ts]
  by (cases p) (auto simp: lo_of_def)

lemma hi_of_range: "0 \<le> hi_of kinds te p \<and> hi_of kinds te p \<le> int (length (snd p))"
  using searchsorted_right_le [of "map t0 (snd p)" te]
  by (cases p) (auto simp: hi_of_def)

lemma iloc_in_range:
  "\<forall>i \<in> set idxs. 0 \<le> i \<and> i < int (length df) \<Longrightarrow>
   iloc df idxs = Inr (map (\<lambda>i. df ! nat i) idxs)"
  by (auto simp: iloc_def Let_def list_all_iff)

lemma collect_frames:
  assumes "\<forall>b \<in> set bs. case b of (df, lo, hi) \<Rightarrow> 0 \<le> lo \<and> hi \<le> int (length df)"
  shows "collect (map (\<lambda>(df, idx_start, idxs). iloc df (map (\<lambda>i. idx_start + i) idxs))
                   (zip (map fst bs)
                        (zip (map (\<lambda>(df, lo, hi). lo) bs)
                             (locals_from acc xs (map (\<lambda>(df, lo, hi). hi - lo) bs)))))
         = Inr (rows_from acc xs bs)"
  using assms
proof (induction bs arbitrary: acc)
  case Nil
  then show ?case by simp
next
  case (Cons b bs)
  obtain df lo hi where b: "b = (df, lo, hi)" by (cases b)
  from Cons.prems b have r: "0 \<le> lo" "hi \<le> int (length df)" by auto
  have "iloc df (map (\<lambda>i. lo + i) (map (\<lambda>s. s - acc)
            (filter (\<lambda>s. acc \<le> s \<and> s < acc + (hi - lo)) xs)))
        = Inr (map (\<lambda>s. df ! nat (lo + (s - acc)))
            (filter (\<lambda>s. acc \<le> s \<and> s < acc + (hi - lo)) xs))"
    using r by (subst iloc_in_range) (auto simp: comp_def)
  moreover have "collect (map (\<lambda>(df, idx_start, idxs). iloc df (map (\<lambda>i. idx_start + i) idxs))
                   (zip (map fst bs)
                        (zip (map (\<lambda>(df, lo, hi). lo) bs)
                             (locals_from (acc + (hi - lo)) xs (map (\<lambda>(df, lo, hi). hi - lo) bs)))))
         = Inr (rows_from (acc + (hi - lo)) xs bs)"
    using Cons.prems by (intro Cons.IH) simp
  ultimately show ?case by (simp add: b)
qed

lemma bounds_ok:
  "\<forall>b \<in> set (bounds tr time_range kinds). case b of (df, lo, hi) \<Rightarrow> 0 \<le> lo \<and> hi \<le> int (length df)"
  by (auto simp: bounds_def lo_of_range hi_of_range)

lemma selected_positions_locals:
  assumes "wf_trace tr" "sorted sampled"
  shows "selected_positions tr time_range kinds sampled
         = map (\<lambda>(idx_start, idxs). map (\<lambda>i. idx_start + i) idxs)
               (zip (map (\<lambda>(df, lo, hi). lo) (bounds tr time_range kinds))
                    (locals_from 0 sampled
                       (map (\<lambda>(df, lo, hi). hi - lo) (bounds tr time_range kinds))))"
  using assms
  by (simp add: selected_positions_def index_start_wf bounds_def comp_def
      local_sampled_idxs_locals num_list_wf)

lemma frames_wf:
  assumes "wf_trace tr" "sorted sampled"
  shows "pandas_concat
           (map (\<lambda>(df, positions). iloc df positions)
                (zip (map snd (data tr)) (selected_positions tr time_range kinds sampled)))
         = (if data tr = [] then Inl ConcatValueError
            else Inr (concat (rows_from 0 sampled (bounds tr time_range kinds))))"
proof -
  let ?bs = "bounds tr time_range kinds"
  have 1: "map snd (data tr) = map fst ?bs" by (simp add: bounds_def comp_def)
  have 4: "rows_from 0 sampled ?bs = [] \<longleftrightarrow> data tr = []"
    by (cases "data tr") (auto simp: bounds_def)
  have 5: "map (\<lambda>(df, positions). iloc df positions)
             (zip (map fst ?bs) (map (\<lambda>(idx_start, idxs). map (\<lambda>i. idx_start + i) idxs) zs))
           = map (\<lambda>(df, idx_start, idxs). iloc df (map (\<lambda>i. idx_start + i) idxs))
                 (zip (map fst ?bs) zs)" for zs
    by (simp add: zip_map2 split_def comp_def)
  show ?thesis
    unfolding pandas_concat_def selected_positions_locals [OF assms] 1 5
      collect_frames [OF bounds_ok]
    by (simp add: 4)
qed

lemma sampled_idxs_sorted:
  "sampled_idxs tr time_range kinds num_samples draw = Inr sampled \<Longrightarrow> sorted sampled"
  by (auto simp: sampled_idxs_def Let_def random_sample_def split: if_splits)

lemma get_sampled_time_slice_wf:
  assumes "wf_trace tr"
  shows "get_sampled_time_slice tr time_range kinds num_samples draw
         = (case sampled_idxs tr time_range kinds num_samples draw of
              Inl e \<Rightarrow> Inl e
            | Inr sampled \<Rightarrow>
                if data tr = [] then Inl ConcatValueError
                else Inr (concat (rows_from 0 sampled (bounds tr time_range kinds)),
                          num_total tr time_range kinds))"
proof (cases "sampled_idxs tr time_range kinds num_samples draw")
  case (Inl e)
  then show ?thesis by (simp add: get_sampled_time_slice_def)
next
  case (Inr sampled)
  then have "sorted sampled" by (rule sampled_idxs_sorted)
  with assms Inr show ?thesis
    by (simp add: get_sampled_time_slice_def frames_wf)
qed


lemma distinct_concat_groups:
  "distinct ks \<Longrightarrow> distinct df \<Longrightarrow>
   distinct (concat (map (\<lambda>k. filter (\<lambda>e. f e = k) df) ks))"
  by (induction ks) auto

lemma wf_read_csv: "wf_trace (read_csv rows)"
proof -
  define df0 where "df0 = map (\<lambda>(i, r). \<lparr>rank0 = rank0 r, t0 = t0 r, rank1 = rank1 r, t1 = t1 r,
                              kind = kind r, duration = t1 r - t0 r, line = i\<rparr>)
                   (enumerate 0 rows)"
  define df where "df = sort_key t0 df0"
  have data: "data (read_csv rows) = groupby_kind df"
    by (simp add: read_csv_def df_def df0_def Let_def)
  have t1i: "t1_index (read_csv rows)
      = map (\<lambda>(k, kind_df). (k, sort_key snd (enumerate 0 (map t1 kind_df)))) (data (read_csv rows))"
    by (simp add: read_csv_def df_def df0_def Let_def)
  have "map line df0 = map fst (enumerate 0 rows)"
    unfolding df0_def map_map by (rule map_cong) auto
  then have "distinct (map line df0)" by simp
  then have "distinct df0" by (simp add: distinct_map)
  then have d: "distinct df" by (simp add: df_def)
  have s: "sorted (map t0 df)" by (simp add: df_def)
  have keys: "sorted_wrt (<) (map fst (groupby_kind df))"
    by (simp add: groupby_kind_def comp_def strict_sorted_iff)
  have frames: "distinct (concat (map snd (groupby_kind df)))"
    using d by (simp add: groupby_kind_def comp_def distinct_concat_groups)
  have grp: "sorted (map t0 (snd p)) \<and> snd p \<noteq> []
         \<and> (\<forall>e \<in> set (snd p). kind e = fst p)" if "p \<in> set (groupby_kind df)" for p
  proof -
    from that obtain k where k: "k \<in> set (map kind df)" and p: "p = (k, filter (\<lambda>e. kind e = k) df)"
      by (auto simp: groupby_kind_def)
    from k have "filter (\<lambda>e. kind e = k) df \<noteq> []"
      by (auto simp: filter_empty_conv)
    with p d s show ?thesis by (simp add: sorted_filter)
  qed
  show ?thesis
    unfolding wf_trace_def data [symmetric]
    using keys frames grp t1i by (simp add: data)
qed

lemma set_get_kinds_read_csv: "set (get_kinds (read_csv rows)) = kind ` set rows"
proof -
  define df0 where "df0 = map (\<lambda>(i, r). \<lparr>rank0 = rank0 r, t0 = t0 r, rank1 = rank1 r, t1 = t1 r,
                              kind = kind r, duration = t1 r - t0 r, line = i\<rparr>)
                   (enumerate 0 rows)"
  have "map kind df0 = map kind (map snd (enumerate 0 rows))"
    unfolding df0_def map_map by (rule map_cong) auto
  then have "set (map kind df0) = kind ` set rows" by simp
  moreover have "get_kinds (read_csv rows) = sort (remdups (map kind (sort_key t0 df0)))"
    by (simp add: get_kinds_def read_csv_def Let_def groupby_kind_def df0_def comp_def)
  ultimately show ?thesis by simp
qed

lemma data_read_csv_empty: "data (read_csv rows) = [] \<longleftrightarrow> rows = []"
  using set_get_kinds_read_csv [of rows] by (auto simp: get_kinds_def)

lemma rows_from_Nil: "concat (rows_from acc [] bs) = []"
  by (induction bs arbitrary: acc) auto

lemma filter_interval_split:
  fixes a :: int
  assumes "0 \<le> c" "0 \<le> d"
  shows "length (filter (\<lambda>s. a \<le> s \<and> s < a + c) xs)
         + length (filter (\<lambda>s. a + c \<le> s \<and> s < a + c + d) xs)
         = length (filter (\<lambda>s. a \<le> s \<and> s < a + c + d) xs)"
  using assms by (induction xs) auto

lemma sum_counts_nonneg:
  "\<forall>b \<in> set bs. case b of (df, lo, hi) \<Rightarrow> lo \<le> hi \<Longrightarrow>
   (0::int) \<le> sum_list (map (\<lambda>(df, lo, hi). hi - lo) bs)"
  by (induction bs) auto

lemma length_rows_from:
  assumes "\<forall>b \<in> set bs. case b of (df, lo, hi) \<Rightarrow> lo \<le> hi"
  shows "length (concat (rows_from acc xs bs))
         = length (filter (\<lambda>s. acc \<le> s \<and> s < acc + sum_list (map (\<lambda>(df, lo, hi). hi - lo) bs)) xs)"
  using assms
proof (induction bs arbitrary: acc)
  case Nil
  then show ?case by simp
next
  case (Cons b bs)
  obtain df lo hi where b: "b = (df, lo, hi)" by (cases b)
  from Cons.prems b have c: "0 \<le> hi - lo" by simp
  from Cons.prems have d: "0 \<le> sum_list (map (\<lambda>(df, lo, hi). hi - lo) bs)"
    by (intro sum_counts_nonneg) simp
  have "length (concat (rows_from (acc + (hi - lo)) xs bs))
        = length (filter (\<lambda>s. acc + (hi - lo) \<le> s
            \<and> s < acc + (hi - lo) + sum_list (map (\<lambda>(df, lo, hi). hi - lo) bs)) xs)"
    using Cons.prems by (intro Cons.IH) simp
  then show ?case
    using filter_interval_split [OF c d, of acc xs] by (simp add: b add.assoc)
qed

lemma rows_from_member:
  assumes "e \<in> set (concat (rows_from acc xs bs))"
  shows "\<exists>(df, lo, hi) \<in> set bs. \<exists>p. lo \<le> p \<and> p < hi \<and> e = df ! nat p"
  using assms
proof (induction bs arbitrary: acc)
  case Nil
  then show ?case by simp
next
  case (Cons b bs)
  obtain df lo hi where b: "b = (df, lo, hi)" by (cases b)
  from Cons.prems b consider
    (here) s where "acc \<le> s" "s < acc + (hi - lo)" "e = df ! nat (lo + (s - acc))"
    | (later) "e \<in> set (concat (rows_from (acc + (hi - lo)) xs bs))"
    by auto
  then show ?case
  proof cases
    case here
    then have "\<exists>p. lo \<le> p \<and> p < hi \<and> e = df ! nat p"
      by (intro exI [of _ "lo + (s - acc)"]) simp
    then show ?thesis by (simp add: b)
  next
    case later
    from Cons.IH [OF later] show ?thesis by auto
  qed
qed

lemma filter_py_range:
  assumes "0 \<le> a" "b \<le> n"
  shows "filter (\<lambda>s. a \<le> s \<and> s < b) (py_range n) = [a..b - 1]"
proof -
  have "sorted_wrt (<) (filter (\<lambda>s. a \<le> s \<and> s < b) (py_range n))"
    by (simp add: py_range_def sorted_wrt_filter)
  moreover have "sorted_wrt (<) [a..b - 1]" by simp
  moreover have "set (filter (\<lambda>s. a \<le> s \<and> s < b) (py_range n)) = set [a..b - 1]"
    using assms by (auto simp: py_range_def)
  ultimately show ?thesis by (metis strict_sorted_equal)
qed

lemma map_nth_upto:
  assumes "0 \<le> lo" "lo \<le> hi" "hi \<le> int (length df)" "b - a = hi - lo"
  shows "map (\<lambda>s. df ! nat (lo + (s - a))) [a..b - 1] = py_slice (nat lo) (nat hi) df"
proof (rule nth_equalityI)
  show "length (map (\<lambda>s. df ! nat (lo + (s - a))) [a..b - 1]) = length (py_slice (nat lo) (nat hi) df)"
    using assms by (simp add: py_slice_def)
next
  fix i assume "i < length (map (\<lambda>s. df ! nat (lo + (s - a))) [a..b - 1])"
  then have i: "int i < b - a" by simp
  then have "[a..b - 1] ! i = a + int i" by (intro nth_upto) simp
  moreover have "nat (lo + int i) = nat lo + i" using assms(1) by simp
  ultimately show "map (\<lambda>s. df ! nat (lo + (s - a))) [a..b - 1] ! i = py_slice (nat lo) (nat hi) df ! i"
    using i assms by (simp add: py_slice_def)
qed

lemma rows_from_full:
  assumes "\<forall>b \<in> set bs. case b of (df, lo, hi) \<Rightarrow> 0 \<le> lo \<and> lo \<le> hi \<and> hi \<le> int (length df)"
    and "0 \<le> acc" "acc + sum_list (map (\<lambda>(df, lo, hi). hi - lo) bs) \<le> n"
  shows "rows_from acc (py_range n) bs = map (\<lambda>(df, lo, hi). py_slice (nat lo) (nat hi) df) bs"
  using assms
proof (induction bs arbitrary: acc)
  case Nil
  then show ?case by simp
next
  case (Cons b bs)
  obtain df lo hi where b: "b = (df, lo, hi)" by (cases b)
  from Cons.prems b have r: "0 \<le> lo" "lo \<le> hi" "hi \<le> int (length df)" by auto
  from Cons.prems have d: "0 \<le> sum_list (map (\<lambda>(df, lo, hi). hi - lo) bs)"
    by (intro sum_counts_nonneg) auto
  have f: "filter (\<lambda>s. acc \<le> s \<and> s < acc + (hi - lo)) (py_range n) = [acc..acc + (hi - lo) - 1]"
    using Cons.prems(2,3) d by (intro filter_py_range) (auto simp: b)
  have h: "map (\<lambda>s. df ! nat (lo + (s - acc))) [acc..acc + (hi - lo) - 1] = py_slice (nat lo) (nat hi) df"
    using r by (intro map_nth_upto) auto
  have t: "rows_from (acc + (hi - lo)) (py_range n) bs
           = map (\<lambda>(df, lo, hi). py_slice (nat lo) (nat hi) df) bs"
    using Cons.prems r by (intro Cons.IH) (auto simp: b add.assoc)
  show ?case by (simp add: b f h t)
qed

section \<open>The claims\<close>

lemma sampled_idxs_cases:
  "sampled_idxs tr time_range kinds num_samples draw
   = (if num_total tr time_range kinds > num_samples
      then (if 0 \<le> num_samples then Inr (sort draw) else Inl SampleValueError)
      else Inr (py_range (num_total tr time_range kinds)))"
  by (auto simp: sampled_idxs_def Let_def random_sample_def py_range_def sorted_sort_id)

text \<open>
  Claim C1 (range filter): every event of the returned slice has \<open>t1 \<ge> start\<close> and
  \<open>t0 \<le> end\<close>. The code does not do this. The lower bound is a position in the
  ascending order of \<open>t1\<close>, and it is used as a position in the frame, which is in
  ascending order of \<open>t0\<close>. With three events of one kind, \<open>[0,100]\<close>, \<open>[1,2]\<close> and
  \<open>[3,50]\<close>, and the window \<open>[10,60]\<close>, one event ends before the window, so the lower bound
  is 1 and the frame is cut to its positions 1 and 2: the slice holds \<open>[1,2]\<close>, which ends
  before 10, and misses \<open>[0,100]\<close>, which covers the window. The total, 2, is the number of
  events that do meet the window.
\<close>

theorem range_filter_violated:
  "get_sampled_time_slice
     (read_csv [csv_line 0 0 0 100 ''A'', csv_line 0 1 0 2 ''A'', csv_line 0 3 0 50 ''A''])
     (10 :: int, 60) {''A''} 1000 []
   = Inr ([\<lparr>rank0 = 0, t0 = 1, rank1 = 0, t1 = 2, kind = ''A'', duration = 1, line = 1\<rparr>,
           \<lparr>rank0 = 0, t0 = 3, rank1 = 0, t1 = 50, kind = ''A'', duration = 47, line = 2\<rparr>], 2)"
  by code_simp

text \<open>
  Claim C10 (index without kinds): when the index holds no kind, the call raises instead
  of returning an empty slice, whatever the query: \<open>pandas.concat\<close> is given no frame and
  raises \<open>ValueError\<close> (with a negative budget \<open>random.sample\<close> raises first). So no query
  returns an empty slice on such an index.
\<close>

theorem no_kinds_raises:
  assumes "get_kinds tr = []"
  shows "isl (get_sampled_time_slice tr time_range kinds num_samples draw) \<and>
         (0 \<le> num_samples \<longrightarrow>
            get_sampled_time_slice tr time_range kinds num_samples draw = Inl ConcatValueError)"
proof -
  from assms have d: "data tr = []" by (simp add: get_kinds_def)
  then have "num_list tr time_range kinds = []" by (simp add: num_list_def index_end_def)
  then have t: "num_total tr time_range kinds = 0" by (simp add: num_total_sum)
  show ?thesis
    by (simp add: get_sampled_time_slice_def sampled_idxs_cases t d py_range_def
        pandas_concat_def)
qed

theorem no_kinds_raises_witness:
  "get_kinds (read_csv ([] :: int csv_row list)) = [] \<and>
   get_sampled_time_slice (read_csv ([] :: int csv_row list)) (0, 5) {''A''} 3 []
     = Inl ConcatValueError"
proof -
  have h: "get_kinds (read_csv ([] :: int csv_row list)) = []" by code_simp
  from no_kinds_raises [OF h, of "(0, 5)" "{''A''}" 3 "[]"] h show ?thesis by simp
qed

text \<open>
  Claim C8 (order of the kinds), as stated: the kinds are in first-seen order. With a
  first row of kind \<open>b\<close> and a second row of kind \<open>a\<close> the first-seen order is \<open>b, a\<close>,
  and \<open>get_kinds\<close> returns \<open>a, b\<close>.
\<close>

theorem kinds_first_seen_counterexample:
  "get_kinds (read_csv [csv_line 0 (0::int) 0 1 ''b'', csv_line 0 2 0 3 ''a''])
     \<noteq> first_seen_order (map kind [csv_line 0 (0::int) 0 1 ''b'', csv_line 0 2 0 3 ''a''])"
  by code_simp

text \<open>
  Claim C8, amended: \<open>read_csv\<close> groups the events by kind with the kinds in ascending
  order of the kind (each kind of the input once); both dictionaries have these keys in
  this order, every group is non-empty and holds events of its kind only, and \<open>get_kinds\<close>
  returns this sequence. It is a function of the index alone, and no operation changes
  the index.
\<close>

theorem kinds_sorted_order:
  "sorted_wrt (<) (get_kinds (read_csv rows)) \<and>
   set (get_kinds (read_csv rows)) = kind ` set rows \<and>
   map fst (t1_index (read_csv rows)) = get_kinds (read_csv rows) \<and>
   (\<forall>(k, df) \<in> set (data (read_csv rows)). df \<noteq> [] \<and> (\<forall>e \<in> set df. kind e = k))"
proof -
  have w: "wf_trace (read_csv rows)" by (rule wf_read_csv)
  then have 1: "map fst (t1_index (read_csv rows)) = get_kinds (read_csv rows)"
    by (simp add: wf_trace_def get_kinds_def comp_def split_def)
  from w have 2: "sorted_wrt (<) (get_kinds (read_csv rows))"
    by (simp add: wf_trace_def get_kinds_def)
  from w have 3: "\<forall>(k, df) \<in> set (data (read_csv rows)). df \<noteq> [] \<and> (\<forall>e \<in> set df. kind e = k)"
    by (auto simp: wf_trace_def)
  from 1 2 3 show ?thesis by (simp add: set_get_kinds_read_csv)
qed

lemma add_rank_pos_nth:
  assumes "i < length df"
  shows "add_rank_pos num_conc df ! i =
     \<lparr>rank0 = rank0 (df ! i), t0 = t0 (df ! i), rank1 = rank1 (df ! i), t1 = t1 (df ! i),
      kind = kind (df ! i), duration = duration (df ! i), line = line (df ! i),
      rank0_pos = of_int (rank0 (df ! i)) + (of_int (int i mod num_conc) + 1 / 2) / of_int num_conc,
      height = 1 / of_int num_conc,
      rank1_pos = (if rank0 (df ! i) = rank1 (df ! i)
                   then of_int (rank0 (df ! i)) + (of_int (int i mod num_conc) + 1 / 2) / of_int num_conc
                   else of_int (rank1 (df ! i)) + 1 / 2)\<rparr>"
  using assms by (simp add: add_rank_pos_def nth_enumerate_eq Let_def)

text \<open>
  Claim C9 (lanes): for a lane count of at least 1, \<open>add_rank_pos\<close> gives the row at
  position \<open>i\<close> of the slice the height \<open>1 / lane_count\<close>, the origin position
  \<open>rank0 + (i mod lane_count + 0.5) / lane_count\<close>, and the destination position equal to
  the origin position when \<open>rank1 = rank0\<close>, \<open>rank1 + 0.5\<close> otherwise; with one lane the
  origin position is \<open>rank0 + 0.5\<close>. (Exact arithmetic.)
\<close>

theorem lane_assignment:
  assumes "1 \<le> lane_count" "i < length df"
  shows "length (add_rank_pos lane_count df) = length df \<and>
    height (add_rank_pos lane_count df ! i) = 1 / of_int lane_count \<and>
    rank0_pos (add_rank_pos lane_count df ! i)
      = of_int (rank0 (df ! i)) + (of_int (int i mod lane_count) + 1 / 2) / of_int lane_count \<and>
    rank1_pos (add_rank_pos lane_count df ! i)
      = (if rank1 (df ! i) = rank0 (df ! i) then rank0_pos (add_rank_pos lane_count df ! i)
         else of_int (rank1 (df ! i)) + 1 / 2) \<and>
    (lane_count = 1 \<longrightarrow>
       rank0_pos (add_rank_pos lane_count df ! i) = of_int (rank0 (df ! i)) + 1 / 2)"
proof -
  have "length (add_rank_pos lane_count df) = length df"
    by (simp add: add_rank_pos_def)
  then show ?thesis
    using assms(2) by (auto simp: add_rank_pos_nth)
qed


lemma sampled_props:
  assumes "draw_ok tr time_range kinds num_samples draw"
    and "sampled_idxs tr time_range kinds num_samples draw = Inr sampled"
  shows "distinct sampled \<and>
     (\<forall>s \<in> set sampled. 0 \<le> s \<and> s < num_total tr time_range kinds) \<and>
     int (length sampled) = (if num_total tr time_range kinds > num_samples then num_samples
                                else max 0 (num_total tr time_range kinds))"
proof (cases "num_total tr time_range kinds > num_samples")
  case True
  with assms(2) have n: "0 \<le> num_samples" and s: "sampled = sort draw"
    by (auto simp: sampled_idxs_cases split: if_splits)
  with True assms(1) have "valid_draw (num_total tr time_range kinds) num_samples draw"
    by (simp add: draw_ok_def)
  with s True show ?thesis
    by (auto simp: valid_draw_def list_all_iff)
next
  case False
  with assms(2) have s: "sampled = py_range (num_total tr time_range kinds)"
    by (auto simp: sampled_idxs_cases)
  with False show ?thesis
    by (auto simp: py_range_def)
qed

lemma nonneg_bounds:
  assumes "wf_trace tr" "list_all (\<lambda>c. 0 \<le> c) (num_list tr time_range kinds)"
  shows "\<forall>b \<in> set (bounds tr time_range kinds). case b of (df, lo, hi) \<Rightarrow> lo \<le> hi"
  using assms by (auto simp: num_list_bounds list_all_iff)

lemma num_total_bounds:
  "wf_trace tr \<Longrightarrow>
   num_total tr time_range kinds = sum_list (map (\<lambda>(df, lo, hi). hi - lo) (bounds tr time_range kinds))"
  by (simp add: num_total_sum num_list_bounds)

lemma slice_length:
  assumes w: "wf_trace tr"
    and nn: "list_all (\<lambda>c. 0 \<le> c) (num_list tr time_range kinds)"
    and ok: "draw_ok tr time_range kinds num_samples draw"
    and s: "sampled_idxs tr time_range kinds num_samples draw = Inr sampled"
  shows "int (length (concat (rows_from 0 sampled (bounds tr time_range kinds))))
         = min num_samples (num_total tr time_range kinds)"
proof -
  let ?total = "num_total tr time_range kinds"
  let ?bs = "bounds tr time_range kinds"
  have t: "?total = sum_list (map (\<lambda>(df, lo, hi). hi - lo) ?bs)"
    using w by (rule num_total_bounds)
  have b: "\<forall>b \<in> set ?bs. case b of (df, lo, hi) \<Rightarrow> lo \<le> hi"
    using w nn by (rule nonneg_bounds)
  then have t0: "0 \<le> ?total" unfolding t by (rule sum_counts_nonneg)
  have "length (concat (rows_from 0 sampled ?bs))
        = length (filter (\<lambda>s. 0 \<le> s \<and> s < 0 + ?total) sampled)"
    unfolding t using b by (rule length_rows_from)
  also have "filter (\<lambda>s. 0 \<le> s \<and> s < 0 + ?total) sampled = sampled"
    using sampled_props [OF ok s] by (simp add: filter_id_conv)
  finally show ?thesis
    using sampled_props [OF ok s] t0 by (simp split: if_splits)
qed

lemma sampled_idxs_returns:
  "0 \<le> num_samples \<Longrightarrow> \<exists>sampled. sampled_idxs tr time_range kinds num_samples draw = Inr sampled"
  by (simp add: sampled_idxs_cases)

text \<open>
  Claim C2 (budget), amended: on an index with at least one kind, with a budget that is
  not negative and with no negative count (no kind whose upper bound is below its lower
  bound), the call returns, and the size of the slice is the minimum of the budget and
  of the total.
\<close>

theorem budget_respected:
  assumes "rows \<noteq> []" "0 \<le> num_samples"
    and "list_all (\<lambda>c. 0 \<le> c) (num_list (read_csv rows) time_range kinds)"
    and "draw_ok (read_csv rows) time_range kinds num_samples draw"
  shows "\<exists>sl. get_sampled_time_slice (read_csv rows) time_range kinds num_samples draw
               = Inr (sl, num_total (read_csv rows) time_range kinds)
            \<and> int (length sl) = min num_samples (num_total (read_csv rows) time_range kinds)"
proof -
  let ?tr = "read_csv rows"
  have w: "wf_trace ?tr" by (rule wf_read_csv)
  have d: "data ?tr \<noteq> []" using assms(1) by (simp add: data_read_csv_empty)
  from sampled_idxs_returns [OF assms(2)] obtain sampled
    where s: "sampled_idxs ?tr time_range kinds num_samples draw = Inr sampled" by blast
  have "get_sampled_time_slice ?tr time_range kinds num_samples draw
        = Inr (concat (rows_from 0 sampled (bounds ?tr time_range kinds)),
               num_total ?tr time_range kinds)"
    using d s by (simp add: get_sampled_time_slice_wf [OF w])
  moreover note slice_length [OF w assms(3,4) s]
  ultimately show ?thesis by blast
qed

text \<open>
  Claim C2, as stated (size \<open>= min(max_samples, total)\<close> for every input): with two events
  \<open>[0,1]\<close> and \<open>[2,3]\<close> and the inverted window from 10 to -5 the lower bound is 2 and the
  upper bound is 0, the total is -2, and the slice has 0 rows, which is not
  \<open>min(5, -2)\<close>.
\<close>

theorem budget_counterexample:
  "get_sampled_time_slice (read_csv [csv_line 0 0 0 1 ''A'', csv_line 0 2 0 3 ''A''])
     (10 :: int, - 5) {''A''} 5 [] = Inr ([], - 2)
   \<and> int (length ([] :: int event list)) \<noteq> min 5 (- 2)"
  by code_simp

theorem kinds_sorted_order_witness:
  "sorted_wrt (<) (get_kinds
     (read_csv [csv_line 0 (0::int) 0 1 ''b'', csv_line 0 2 0 3 ''a'', csv_line 1 4 1 6 ''b''])) \<and>
   kind (hd (snd (hd (data
     (read_csv [csv_line 0 (0::int) 0 1 ''b'', csv_line 0 2 0 3 ''a'', csv_line 1 4 1 6 ''b'']))))) = ''a''"
proof -
  let ?rows = "[csv_line 0 (0::int) 0 1 ''b'', csv_line 0 2 0 3 ''a'', csv_line 1 4 1 6 ''b'']"
  let ?df = "[\<lparr>rank0 = 0, t0 = 2 :: int, rank1 = 0, t1 = 3, kind = ''a'', duration = 1, line = 1\<rparr>]"
  have d: "hd (data (read_csv ?rows)) = (''a'', ?df)" by code_simp
  have n: "data (read_csv ?rows) \<noteq> []" by code_simp
  from n have m: "hd (data (read_csv ?rows)) \<in> set (data (read_csv ?rows))" by (rule hd_in_set)
  note k = kinds_sorted_order [of ?rows]
  note 1 = k [THEN conjunct1]
  note 2 = k [THEN conjunct2, THEN conjunct2, THEN conjunct2]
  from bspec [OF 2 m] have "kind (hd ?df) = ''a''"
    unfolding d by simp
  with 1 show ?thesis unfolding d by simp
qed

theorem lane_assignment_witness:
  "(1::int) \<le> 3 \<and>
   height (add_rank_pos 3 [\<lparr>rank0 = 2, t0 = 0 :: int, rank1 = 2, t1 = 1, kind = ''A'', duration = 1, line = 0\<rparr>,
                           \<lparr>rank0 = 4, t0 = 1 :: int, rank1 = 5, t1 = 3, kind = ''A'', duration = 2, line = 1\<rparr>] ! 1)
     = 1 / 3 \<and>
   rank0_pos (add_rank_pos 3 [\<lparr>rank0 = 2, t0 = 0 :: int, rank1 = 2, t1 = 1, kind = ''A'', duration = 1, line = 0\<rparr>,
                           \<lparr>rank0 = 4, t0 = 1 :: int, rank1 = 5, t1 = 3, kind = ''A'', duration = 2, line = 1\<rparr>] ! 1)
     = 9 / 2 \<and>
   rank1_pos (add_rank_pos 3 [\<lparr>rank0 = 2, t0 = 0 :: int, rank1 = 2, t1 = 1, kind = ''A'', duration = 1, line = 0\<rparr>,
                           \<lparr>rank0 = 4, t0 = 1 :: int, rank1 = 5, t1 = 3, kind = ''A'', duration = 2, line = 1\<rparr>] ! 1)
     = 11 / 2"
proof -
  let ?df = "[\<lparr>rank0 = 2, t0 = 0 :: int, rank1 = 2, t1 = 1, kind = ''A'', duration = 1, line = 0\<rparr>,
              \<lparr>rank0 = 4, t0 = 1 :: int, rank1 = 5, t1 = 3, kind = ''A'', duration = 2, line = 1\<rparr>]"
  have h1: "(1::int) \<le> 3" by simp
  have h2: "1 < length ?df" by simp
  from lane_assignment [OF h1 h2] show ?thesis by simp
qed

theorem budget_respected_witness:
  "[csv_line 0 (0::int) 0 10 ''A'', csv_line 0 5 0 20 ''A'', csv_line 1 7 1 9 ''B''] \<noteq> [] \<and>
   (0::int) \<le> 2 \<and>
   list_all (\<lambda>c. 0 \<le> c)
     (num_list (read_csv [csv_line 0 (0::int) 0 10 ''A'', csv_line 0 5 0 20 ''A'', csv_line 1 7 1 9 ''B''])
        (0, 30) {''A'', ''B''}) \<and>
   draw_ok (read_csv [csv_line 0 (0::int) 0 10 ''A'', csv_line 0 5 0 20 ''A'', csv_line 1 7 1 9 ''B''])
     (0, 30) {''A'', ''B''} 2 [2, 0] \<and>
   (\<exists>sl. get_sampled_time_slice
           (read_csv [csv_line 0 (0::int) 0 10 ''A'', csv_line 0 5 0 20 ''A'', csv_line 1 7 1 9 ''B''])
           (0, 30) {''A'', ''B''} 2 [2, 0] = Inr (sl, 3) \<and> length sl = 2)"
proof -
  let ?rows = "[csv_line 0 (0::int) 0 10 ''A'', csv_line 0 5 0 20 ''A'', csv_line 1 7 1 9 ''B'']"
  have h1: "?rows \<noteq> []" by simp
  have h2: "(0::int) \<le> 2" by simp
  have h3: "list_all (\<lambda>c. 0 \<le> c) (num_list (read_csv ?rows) (0, 30) {''A'', ''B''})"
    by code_simp
  have h4: "draw_ok (read_csv ?rows) (0, 30) {''A'', ''B''} 2 [2, 0]" by code_simp
  have t: "num_total (read_csv ?rows) (0, 30) {''A'', ''B''} = 3" by code_simp
  from budget_respected [OF h1 h2 h3 h4] t h3 h4 show ?thesis by simp
qed

lemma py_slice_zero [simp]: "py_slice 0 0 df = []"
  by (simp add: py_slice_def)

lemma bounds_full_ranges:
  "map (\<lambda>(df, lo, hi). py_slice (nat lo) (nat hi) df) (bounds tr time_range kinds)
   = map (\<lambda>(k, df). if k \<in> kinds
                      then py_slice (searchsorted_left (sort (map t1 df)) (fst time_range))
                                    (searchsorted_right (map t0 df) (snd time_range)) df
                      else [])
         (data tr)"
  by (auto simp: bounds_def lo_of_def hi_of_def)

lemma bounds_ranges_ok:
  assumes "wf_trace tr" "list_all (\<lambda>c. 0 \<le> c) (num_list tr time_range kinds)"
  shows "\<forall>b \<in> set (bounds tr time_range kinds).
           case b of (df, lo, hi) \<Rightarrow> 0 \<le> lo \<and> lo \<le> hi \<and> hi \<le> int (length df)"
  using nonneg_bounds [OF assms] bounds_ok [of tr time_range kinds]
  by (auto simp: bounds_def lo_of_range)

text \<open>
  Claim C3 (exact at or under the budget), amended: on an index with at least one kind
  and with no negative count, a query whose total is at most the budget returns, for
  every draw, the whole range \<open>[lo, hi)\<close> of the frame of every visible kind (nothing of
  the others), the kinds in the order of the index and the rows in the order of the
  frame, and the total is the number of rows returned.
\<close>

theorem exact_under_budget:
  assumes "rows \<noteq> []"
    and "list_all (\<lambda>c. 0 \<le> c) (num_list (read_csv rows) time_range kinds)"
    and "num_total (read_csv rows) time_range kinds \<le> num_samples"
  shows "get_sampled_time_slice (read_csv rows) time_range kinds num_samples draw
         = Inr (concat (map (\<lambda>(k, df).
                   if k \<in> kinds
                   then py_slice (searchsorted_left (sort (map t1 df)) (fst time_range))
                                 (searchsorted_right (map t0 df) (snd time_range)) df
                   else [])
                 (data (read_csv rows))),
                num_total (read_csv rows) time_range kinds)
         \<and> num_total (read_csv rows) time_range kinds
           = int (length (concat (map (\<lambda>(k, df).
                   if k \<in> kinds
                   then py_slice (searchsorted_left (sort (map t1 df)) (fst time_range))
                                 (searchsorted_right (map t0 df) (snd time_range)) df
                   else [])
                 (data (read_csv rows)))))"
proof -
  let ?tr = "read_csv rows"
  let ?total = "num_total ?tr time_range kinds"
  let ?bs = "bounds ?tr time_range kinds"
  have w: "wf_trace ?tr" by (rule wf_read_csv)
  have d: "data ?tr \<noteq> []" using assms(1) by (simp add: data_read_csv_empty)
  have s: "sampled_idxs ?tr time_range kinds num_samples draw = Inr (py_range ?total)"
    using assms(3) by (simp add: sampled_idxs_cases)
  have ok: "draw_ok ?tr time_range kinds num_samples draw"
    using assms(3) by (simp add: draw_ok_def)
  have t: "?total = sum_list (map (\<lambda>(df, lo, hi). hi - lo) ?bs)"
    using w by (rule num_total_bounds)
  have full: "rows_from 0 (py_range ?total) ?bs
              = map (\<lambda>(df, lo, hi). py_slice (nat lo) (nat hi) df) ?bs"
    using bounds_ranges_ok [OF w assms(2)] by (rule rows_from_full) (simp_all add: t)
  have r: "get_sampled_time_slice ?tr time_range kinds num_samples draw
        = Inr (concat (rows_from 0 (py_range ?total) ?bs), ?total)"
    using d s by (simp add: get_sampled_time_slice_wf [OF w])
  have "0 \<le> ?total" unfolding t using nonneg_bounds [OF w assms(2)] by (rule sum_counts_nonneg)
  with slice_length [OF w assms(2) ok s] assms(3)
  have l: "int (length (concat (rows_from 0 (py_range ?total) ?bs))) = ?total" by simp
  show ?thesis
    using r l unfolding full bounds_full_ranges by simp
qed

text \<open>
  Claim C3, as stated (for every query with a total within the budget, the total is the
  number of returned events): with two events \<open>[0,1]\<close> and \<open>[2,3]\<close> and the inverted
  window from 10 to -5 the total is -2, within the budget 5, and no event is returned.
\<close>

theorem exact_under_budget_counterexample:
  "num_total (read_csv [csv_line 0 0 0 1 ''A'', csv_line 0 2 0 3 ''A'']) (10 :: int, - 5) {''A''} \<le> 5
   \<and> get_sampled_time_slice (read_csv [csv_line 0 0 0 1 ''A'', csv_line 0 2 0 3 ''A''])
        (10 :: int, - 5) {''A''} 5 [] = Inr ([], - 2)
   \<and> (- 2 :: int) \<noteq> int (length ([] :: int event list))"
  by code_simp


theorem exact_under_budget_witness:
  "[csv_line 0 (0::int) 0 10 ''A'', csv_line 0 5 0 20 ''A'', csv_line 1 7 1 9 ''B''] \<noteq> [] \<and>
   list_all (\<lambda>c. 0 \<le> c)
     (num_list (read_csv [csv_line 0 (0::int) 0 10 ''A'', csv_line 0 5 0 20 ''A'', csv_line 1 7 1 9 ''B''])
        (6, 30) {''A''}) \<and>
   num_total (read_csv [csv_line 0 (0::int) 0 10 ''A'', csv_line 0 5 0 20 ''A'', csv_line 1 7 1 9 ''B''])
        (6, 30) {''A''} \<le> 10 \<and>
   get_sampled_time_slice
     (read_csv [csv_line 0 (0::int) 0 10 ''A'', csv_line 0 5 0 20 ''A'', csv_line 1 7 1 9 ''B''])
     (6, 30) {''A''} 10 [7, 7]
   = Inr ([\<lparr>rank0 = 0, t0 = 0, rank1 = 0, t1 = 10, kind = ''A'', duration = 10, line = 0\<rparr>,
           \<lparr>rank0 = 0, t0 = 5, rank1 = 0, t1 = 20, kind = ''A'', duration = 15, line = 1\<rparr>], 2)"
proof -
  let ?rows = "[csv_line 0 (0::int) 0 10 ''A'', csv_line 0 5 0 20 ''A'', csv_line 1 7 1 9 ''B'']"
  let ?tr = "read_csv ?rows"
  have h1: "?rows \<noteq> []" by simp
  have h2: "list_all (\<lambda>c. 0 \<le> c) (num_list ?tr (6, 30) {''A''})" by code_simp
  have h3: "num_total ?tr (6, 30) {''A''} \<le> 10" by code_simp
  have t: "num_total ?tr (6, 30) {''A''} = 2" by code_simp
  have e: "concat (map (\<lambda>(k, df).
                   if k \<in> {''A''}
                   then py_slice (searchsorted_left (sort (map t1 df)) (fst (6 :: int, 30 :: int)))
                                 (searchsorted_right (map t0 df) (snd (6 :: int, 30 :: int))) df
                   else [])
                 (data ?tr))
     = [\<lparr>rank0 = 0, t0 = 0, rank1 = 0, t1 = 10, kind = ''A'', duration = 10, line = 0\<rparr>,
        \<lparr>rank0 = 0, t0 = 5, rank1 = 0, t1 = 20, kind = ''A'', duration = 15, line = 1\<rparr>]"
    by code_simp
  from exact_under_budget [OF h1 h2 h3, of "[7, 7]"] h2 h3 show ?thesis
    unfolding e t by simp
qed

lemma read_csv_events:
  assumes "p \<in> set (data (read_csv rows))" "e \<in> set (snd p)"
  shows "\<exists>r \<in> set rows. t0 e = t0 r \<and> t1 e = t1 r"
proof -
  define df0 where "df0 = map (\<lambda>(i, r). \<lparr>rank0 = rank0 r, t0 = t0 r, rank1 = rank1 r, t1 = t1 r,
                              kind = kind r, duration = t1 r - t0 r, line = i\<rparr>)
                   (enumerate 0 rows)"
  have "data (read_csv rows) = groupby_kind (sort_key t0 df0)"
    by (simp add: read_csv_def df0_def Let_def)
  with assms have "e \<in> set df0" by (auto simp: groupby_kind_def)
  then obtain i r where "(i, r) \<in> set (enumerate 0 rows)" "t0 e = t0 r" "t1 e = t1 r"
    by (auto simp: df0_def)
  then show ?thesis by (auto simp: in_set_enumerate_eq)
qed

lemma lo_of_count:
  "lo_of kinds ts (k, df) = (if k \<in> kinds then int (length (filter (\<lambda>e. t1 e < ts) df)) else 0)"
proof -
  have "length (filter (\<lambda>x. x < ts) (sort (map t1 df))) = length (filter (\<lambda>x. x < ts) (map t1 df))"
    by (simp add: filter_sort)
  also have "\<dots> = length (filter (\<lambda>e. t1 e < ts) df)"
    by (simp add: filter_map comp_def)
  finally show ?thesis by (simp add: lo_of_def searchsorted_left_count)
qed

lemma hi_of_count:
  "sorted (map t0 df) \<Longrightarrow>
   hi_of kinds te (k, df) = (if k \<in> kinds then int (length (filter (\<lambda>e. t0 e \<le> te) df)) else 0)"
  by (simp add: hi_of_def searchsorted_right_count filter_map comp_def)

lemma length_filter_mono:
  "(\<And>x. x \<in> set xs \<Longrightarrow> P x \<Longrightarrow> Q x) \<Longrightarrow> length (filter P xs) \<le> length (filter Q xs)"
  by (induction xs) auto

text \<open>
  No count is negative when the window is not inverted and no event ends before it
  starts.
\<close>

lemma num_list_nonneg:
  assumes "fst time_range \<le> snd time_range" "\<forall>r \<in> set rows. t0 r \<le> t1 r"
  shows "list_all (\<lambda>c. 0 \<le> c) (num_list (read_csv rows) time_range kinds)"
proof -
  let ?tr = "read_csv rows"
  have w: "wf_trace ?tr" by (rule wf_read_csv)
  have "0 \<le> hi_of kinds (snd time_range) p - lo_of kinds (fst time_range) p"
    if p: "p \<in> set (data ?tr)" for p
  proof -
    obtain k df where kd: "p = (k, df)" by (cases p)
    from w p kd have s: "sorted (map t0 df)" by (auto simp: wf_trace_def)
    have "t0 e \<le> snd time_range" if "e \<in> set df" "t1 e < fst time_range" for e
    proof -
      from read_csv_events [OF p] that(1) kd obtain r
        where "r \<in> set rows" "t0 e = t0 r" "t1 e = t1 r" by auto
      with assms(2) have "t0 e \<le> t1 e" by auto
      with that(2) assms(1) show ?thesis by simp
    qed
    then have "length (filter (\<lambda>e. t1 e < fst time_range) df)
                 \<le> length (filter (\<lambda>e. t0 e \<le> snd time_range) df)"
      by (rule length_filter_mono)
    then show ?thesis by (simp add: kd lo_of_count hi_of_count [OF s])
  qed
  then show ?thesis by (simp add: num_list_wf [OF w] list_all_iff)
qed

lemma num_total_nonpos:
  assumes "\<forall>r \<in> set rows. \<not> (t0 r \<le> snd time_range \<and> fst time_range \<le> t1 r)"
  shows "num_total (read_csv rows) time_range kinds \<le> 0"
proof -
  let ?tr = "read_csv rows"
  have w: "wf_trace ?tr" by (rule wf_read_csv)
  have "hi_of kinds (snd time_range) p - lo_of kinds (fst time_range) p \<le> 0"
    if p: "p \<in> set (data ?tr)" for p
  proof -
    obtain k df where kd: "p = (k, df)" by (cases p)
    from w p kd have s: "sorted (map t0 df)" by (auto simp: wf_trace_def)
    have "t1 e < fst time_range" if "e \<in> set df" "t0 e \<le> snd time_range" for e
    proof -
      from read_csv_events [OF p] that(1) kd obtain r
        where "r \<in> set rows" "t0 e = t0 r" "t1 e = t1 r" by auto
      with assms that(2) show ?thesis by auto
    qed
    then have "length (filter (\<lambda>e. t0 e \<le> snd time_range) df)
                 \<le> length (filter (\<lambda>e. t1 e < fst time_range) df)"
      by (rule length_filter_mono)
    then show ?thesis by (simp add: kd lo_of_count hi_of_count [OF s])
  qed
  then have "sum_list (map (\<lambda>p. hi_of kinds (snd time_range) p - lo_of kinds (fst time_range) p)
               (data ?tr)) \<le> 0"
    by (intro sum_list_nonpos) auto
  then show ?thesis by (simp add: num_total_sum num_list_wf [OF w])
qed

lemma num_list_explicit:
  "num_list (read_csv rows) time_range kinds
   = map (\<lambda>(k, df). if k \<in> kinds
                      then int (searchsorted_right (map t0 df) (snd time_range))
                           - int (searchsorted_left (sort (map t1 df)) (fst time_range))
                      else 0)
         (data (read_csv rows))"
  by (auto simp: num_list_wf [OF wf_read_csv] lo_of_def hi_of_def)


lemma slice_of_no_sample:
  assumes "rows \<noteq> []"
    and "sampled_idxs (read_csv rows) time_range kinds num_samples draw = Inr []"
  shows "get_sampled_time_slice (read_csv rows) time_range kinds num_samples draw
         = Inr ([], num_total (read_csv rows) time_range kinds)"
  using assms
  by (simp add: get_sampled_time_slice_wf [OF wf_read_csv] data_read_csv_empty rows_from_Nil)

lemma slice_returns:
  assumes "rows \<noteq> []" "0 \<le> num_samples"
  shows "\<exists>sl. get_sampled_time_slice (read_csv rows) time_range kinds num_samples draw
               = Inr (sl, num_total (read_csv rows) time_range kinds)"
proof -
  from sampled_idxs_returns [OF assms(2)] obtain sampled
    where "sampled_idxs (read_csv rows) time_range kinds num_samples draw = Inr sampled" by blast
  then show ?thesis
    using assms(1)
    by (simp add: get_sampled_time_slice_wf [OF wf_read_csv] data_read_csv_empty)
qed

text \<open>
  Claim C4 (inverted window), as stated: an inverted window gives an empty slice and a
  total of 0. An event \<open>[0,100]\<close> with the window from 50 to 10 is returned, with total 1;
  and two events \<open>[0,1]\<close>, \<open>[2,3]\<close> with the window from 10 to -5 give the total -2: the
  count of a kind is \<open>hi - lo\<close>, not cut at 0.
\<close>

theorem inverted_range_counterexample:
  "get_sampled_time_slice (read_csv [csv_line 0 0 0 100 ''A'']) (50 :: int, 10) {''A''} 1000 []
     = Inr ([\<lparr>rank0 = 0, t0 = 0, rank1 = 0, t1 = 100, kind = ''A'', duration = 100, line = 0\<rparr>], 1)
   \<and> get_sampled_time_slice (read_csv [csv_line 0 0 0 1 ''A'', csv_line 0 2 0 3 ''A''])
        (10 :: int, - 5) {''A''} 1000 [] = Inr ([], - 2)"
  by code_simp

text \<open>
  Claim C4, amended: on an index with at least one kind and with a budget that is not
  negative, a query with an inverted window returns without an error; the count of a
  visible kind is \<open>hi - lo\<close> as it comes (it can be negative) and the total is the sum of
  the counts; the slice is empty whenever the total is at most 0, which is the case
  whenever no event has \<open>t0 \<le> end\<close> and \<open>t1 \<ge> start\<close>.
\<close>

theorem inverted_range:
  assumes "rows \<noteq> []" "0 \<le> num_samples" "snd time_range < fst time_range"
  shows "(\<exists>sl. get_sampled_time_slice (read_csv rows) time_range kinds num_samples draw
                 = Inr (sl, num_total (read_csv rows) time_range kinds)
               \<and> (num_total (read_csv rows) time_range kinds \<le> 0 \<longrightarrow> sl = []))
         \<and> num_total (read_csv rows) time_range kinds
             = sum_list (map (\<lambda>(k, df). if k \<in> kinds
                      then int (searchsorted_right (map t0 df) (snd time_range))
                           - int (searchsorted_left (sort (map t1 df)) (fst time_range))
                      else 0)
                  (data (read_csv rows)))
         \<and> ((\<forall>r \<in> set rows. \<not> (t0 r \<le> snd time_range \<and> fst time_range \<le> t1 r))
               \<longrightarrow> num_total (read_csv rows) time_range kinds \<le> 0)"
proof -
  let ?tr = "read_csv rows"
  let ?total = "num_total ?tr time_range kinds"
  have 1: "\<exists>sl. get_sampled_time_slice ?tr time_range kinds num_samples draw = Inr (sl, ?total)
               \<and> (?total \<le> 0 \<longrightarrow> sl = [])"
  proof (cases "?total \<le> 0")
    case True
    with assms(2) have "sampled_idxs ?tr time_range kinds num_samples draw = Inr []"
      by (simp add: sampled_idxs_cases py_range_def)
    from slice_of_no_sample [OF assms(1) this] show ?thesis by simp
  next
    case False
    with slice_returns [OF assms(1,2)] show ?thesis by simp
  qed
  have 2: "?total = sum_list (map (\<lambda>(k, df). if k \<in> kinds
                      then int (searchsorted_right (map t0 df) (snd time_range))
                           - int (searchsorted_left (sort (map t1 df)) (fst time_range))
                      else 0)
                  (data ?tr))"
    by (simp only: num_total_sum num_list_explicit)
  from 1 2 num_total_nonpos [of rows time_range kinds] show ?thesis by blast
qed

text \<open>
  Claim C5 (budget of 0 or less), as stated: the call never raises. With one event and
  the budget -1 the total, 1, exceeds the budget, \<open>random.sample\<close> is asked for -1
  elements and raises \<open>ValueError\<close>.
\<close>

theorem nonpositive_budget_counterexample:
  "get_sampled_time_slice (read_csv [csv_line 0 0 0 1 ''A'']) (0 :: int, 5) {''A''} (- 1) []
     = Inl SampleValueError"
  by code_simp

text \<open>
  Claim C5, amended: on an index with at least one kind, a budget of 0 gives an empty
  slice and no error; a negative budget gives an empty slice only when the total is not
  above the budget, and the \<open>ValueError\<close> of \<open>random.sample\<close> otherwise.
\<close>

theorem nonpositive_budget:
  assumes "rows \<noteq> []" "num_samples \<le> 0"
    and "draw_ok (read_csv rows) time_range kinds num_samples draw"
  shows "get_sampled_time_slice (read_csv rows) time_range kinds num_samples draw
         = (if num_samples < 0 \<and> num_samples < num_total (read_csv rows) time_range kinds
            then Inl SampleValueError
            else Inr ([], num_total (read_csv rows) time_range kinds))"
proof (cases "num_samples < 0 \<and> num_samples < num_total (read_csv rows) time_range kinds")
  case True
  then have "sampled_idxs (read_csv rows) time_range kinds num_samples draw = Inl SampleValueError"
    by (simp add: sampled_idxs_cases)
  with True show ?thesis by (simp add: get_sampled_time_slice_def)
next
  case False
  have "sampled_idxs (read_csv rows) time_range kinds num_samples draw = Inr []"
  proof (cases "num_samples < num_total (read_csv rows) time_range kinds")
    case True
    with False assms(2) have z: "num_samples = 0" by simp
    with True assms(3) have "draw = []" by (simp add: draw_ok_def valid_draw_def)
    with True z show ?thesis by (simp add: sampled_idxs_cases)
  next
    case False
    with assms(2) show ?thesis by (simp add: sampled_idxs_cases py_range_def)
  qed
  from slice_of_no_sample [OF assms(1) this] False show ?thesis by simp
qed

theorem inverted_range_witness:
  "[csv_line 0 (0::int) 0 1 ''A'', csv_line 0 2 0 3 ''A''] \<noteq> [] \<and> (0::int) \<le> 5 \<and>
   snd (10 :: int, - 5 :: int) < fst (10 :: int, - 5 :: int) \<and>
   get_sampled_time_slice (read_csv [csv_line 0 (0::int) 0 1 ''A'', csv_line 0 2 0 3 ''A''])
     (10, - 5) {''A''} 5 [] = Inr ([], - 2)"
proof -
  let ?rows = "[csv_line 0 (0::int) 0 1 ''A'', csv_line 0 2 0 3 ''A'']"
  have h1: "?rows \<noteq> []" by simp
  have h2: "(0::int) \<le> 5" by simp
  have h3: "snd (10 :: int, - 5 :: int) < fst (10 :: int, - 5 :: int)" by simp
  have t: "num_total (read_csv ?rows) (10, - 5) {''A''} = - 2" by code_simp
  from inverted_range [OF h1 h2 h3, of "{''A''}" "[]", THEN conjunct1] show ?thesis
    unfolding t by auto
qed

theorem nonpositive_budget_witness:
  "[csv_line 0 (0::int) 0 1 ''A'', csv_line 0 2 0 3 ''A''] \<noteq> [] \<and> (0::int) \<le> 0 \<and>
   draw_ok (read_csv [csv_line 0 (0::int) 0 1 ''A'', csv_line 0 2 0 3 ''A'']) (0, 5) {''A''} 0 [] \<and>
   get_sampled_time_slice (read_csv [csv_line 0 (0::int) 0 1 ''A'', csv_line 0 2 0 3 ''A''])
     (0, 5) {''A''} 0 [] = Inr ([], 2)"
proof -
  let ?rows = "[csv_line 0 (0::int) 0 1 ''A'', csv_line 0 2 0 3 ''A'']"
  have h1: "?rows \<noteq> []" by simp
  have h2: "(0::int) \<le> 0" by simp
  have h3: "draw_ok (read_csv ?rows) (0, 5) {''A''} 0 []" by code_simp
  have t: "num_total (read_csv ?rows) (0, 5) {''A''} = 2" by code_simp
  from nonpositive_budget [OF h1 h2 h3] h3 show ?thesis
    unfolding t by simp
qed

lemma cumsum_lefts:
  "i < length cs \<Longrightarrow> cumsum_from acc cs ! i = lefts_from acc cs ! i + cs ! i"
proof (induction cs arbitrary: acc i)
  case Nil
  then show ?case by simp
next
  case (Cons c cs)
  then show ?case by (cases i) auto
qed

lemma num_sum_left_lefts:
  "num_sum_left tr time_range kinds = lefts_from 0 (num_list tr time_range kinds)"
  unfolding num_sum_left_def num_sum_right_def cumsum_def Let_def
  by (rule index_map_lefts)

lemma hidden_kind_count:
  assumes "wf_trace tr" "i < length (data tr)" "fst (data tr ! i) \<notin> kinds"
  shows "num_list tr time_range kinds ! i = 0"
  using assms by (cases "data tr ! i") (auto simp: num_list_wf lo_of_def hi_of_def)

lemma slice_kinds:
  assumes w: "wf_trace tr"
    and r: "get_sampled_time_slice tr time_range kinds num_samples draw = Inr (sl, tot)"
    and e: "e \<in> set sl"
  shows "kind e \<in> kinds"
proof -
  from r obtain sampled where "sl = concat (rows_from 0 sampled (bounds tr time_range kinds))"
    by (auto simp: get_sampled_time_slice_wf [OF w] split: sum.splits if_splits)
  with e rows_from_member [of e 0 sampled "bounds tr time_range kinds"]
  obtain df lo hi p where b: "(df, lo, hi) \<in> set (bounds tr time_range kinds)"
    and p: "lo \<le> p" "p < hi" and ep: "e = df ! nat p" by blast
  from b obtain q where q: "q \<in> set (data tr)" and df: "df = snd q"
    and lo: "lo = lo_of kinds (fst time_range) q" and hi: "hi = hi_of kinds (snd time_range) q"
    by (auto simp: bounds_def)
  have vis: "fst q \<in> kinds"
  proof (rule ccontr)
    assume "fst q \<notin> kinds"
    then have "lo = 0" "hi = 0" by (cases q; simp add: lo hi lo_of_def hi_of_def)+
    with p show False by simp
  qed
  from lo_of_range [of kinds "fst time_range" q] hi_of_range [of kinds "snd time_range" q] p
  have "nat p < length df" by (simp add: lo hi df)
  then have "e \<in> set df" by (simp add: ep)
  with w q df have "kind e = fst q" by (auto simp: wf_trace_def)
  with vis show ?thesis by simp
qed

lemma no_visible_kind:
  assumes "rows \<noteq> []" "0 \<le> num_samples"
  shows "get_sampled_time_slice (read_csv rows) time_range {} num_samples draw = Inr ([], 0)"
proof -
  have "num_list (read_csv rows) time_range {} = map (\<lambda>p. 0) (data (read_csv rows))"
    by (simp add: num_list_wf [OF wf_read_csv] lo_of_def hi_of_def split_def)
  then have t: "num_total (read_csv rows) time_range {} = 0"
    by (simp add: num_total_sum)
  with assms(2) have "sampled_idxs (read_csv rows) time_range {} num_samples draw = Inr []"
    by (simp add: sampled_idxs_cases py_range_def)
  from slice_of_no_sample [OF assms(1) this] t show ?thesis by simp
qed

text \<open>
  Claim C6 (kind filter), as stated: for every query an empty set of visible kinds yields
  an empty slice with total 0. On an index without kinds the call raises, and so it does
  with a negative budget.
\<close>

theorem kind_filter_counterexample:
  "get_sampled_time_slice (read_csv ([] :: int csv_row list)) (0, 5) {} 5 [] = Inl ConcatValueError
   \<and> get_sampled_time_slice (read_csv [csv_line 0 0 0 1 ''A'']) (0 :: int, 5) {} (- 1) []
       = Inl SampleValueError"
  by code_simp

text \<open>
  Claim C6, amended: every event of a returned slice has a visible kind; a kind that is
  not visible has count 0 and its right offset equals its left offset, so it takes no
  virtual index; and with no visible kind at all the call returns the empty slice and the
  total 0, provided the index has at least one kind and the budget is not negative.
\<close>

theorem kind_filter:
  "(\<forall>sl tot. get_sampled_time_slice (read_csv rows) time_range kinds num_samples draw
                  = Inr (sl, tot) \<longrightarrow> (\<forall>e \<in> set sl. kind e \<in> kinds))
   \<and> (\<forall>i < length (get_kinds (read_csv rows)).
         get_kinds (read_csv rows) ! i \<notin> kinds \<longrightarrow>
           num_list (read_csv rows) time_range kinds ! i = 0
           \<and> num_sum_right (read_csv rows) time_range kinds ! i
               = num_sum_left (read_csv rows) time_range kinds ! i)
   \<and> (rows \<noteq> [] \<and> 0 \<le> num_samples \<longrightarrow>
         get_sampled_time_slice (read_csv rows) time_range {} num_samples draw = Inr ([], 0))"
proof -
  let ?tr = "read_csv rows"
  have w: "wf_trace ?tr" by (rule wf_read_csv)
  have 1: "\<forall>sl tot. get_sampled_time_slice ?tr time_range kinds num_samples draw
                  = Inr (sl, tot) \<longrightarrow> (\<forall>e \<in> set sl. kind e \<in> kinds)"
    using slice_kinds [OF w] by blast
  have 2: "num_list ?tr time_range kinds ! i = 0
           \<and> num_sum_right ?tr time_range kinds ! i = num_sum_left ?tr time_range kinds ! i"
    if i: "i < length (get_kinds ?tr)" and h: "get_kinds ?tr ! i \<notin> kinds" for i
  proof -
    from i have i': "i < length (data ?tr)" by (simp add: get_kinds_def)
    with h have "fst (data ?tr ! i) \<notin> kinds" by (simp add: get_kinds_def)
    from hidden_kind_count [OF w i' this] have z: "num_list ?tr time_range kinds ! i = 0" .
    from i' have "i < length (num_list ?tr time_range kinds)"
      by (simp add: num_list_wf [OF w])
    from cumsum_lefts [OF this, of 0] z show ?thesis
      by (simp add: num_sum_right_def cumsum_def num_sum_left_lefts)
  qed
  from 1 2 no_visible_kind [of rows num_samples time_range draw] show ?thesis by blast
qed


theorem kind_filter_witness:
  "get_sampled_time_slice
     (read_csv [csv_line 0 (0::int) 0 10 ''A'', csv_line 0 5 0 20 ''A'', csv_line 1 7 1 9 ''B''])
     (0, 30) {''A''} 1 [1]
   = Inr ([\<lparr>rank0 = 0, t0 = 5, rank1 = 0, t1 = 20, kind = ''A'', duration = 15, line = 1\<rparr>], 2)
   \<and> kind \<lparr>rank0 = 0, t0 = 5 :: int, rank1 = 0, t1 = 20, kind = ''A'', duration = 15 :: int, line = 1 :: nat\<rparr>
       \<in> {''A''}
   \<and> (1::nat) < length (get_kinds
        (read_csv [csv_line 0 (0::int) 0 10 ''A'', csv_line 0 5 0 20 ''A'', csv_line 1 7 1 9 ''B'']))
   \<and> get_kinds (read_csv [csv_line 0 (0::int) 0 10 ''A'', csv_line 0 5 0 20 ''A'', csv_line 1 7 1 9 ''B''])
        ! 1 \<notin> {''A''}
   \<and> num_list (read_csv [csv_line 0 (0::int) 0 10 ''A'', csv_line 0 5 0 20 ''A'', csv_line 1 7 1 9 ''B''])
        (0, 30) {''A''} ! 1 = 0
   \<and> [csv_line 0 (0::int) 0 10 ''A'', csv_line 0 5 0 20 ''A'', csv_line 1 7 1 9 ''B''] \<noteq> []
   \<and> (0::int) \<le> 1
   \<and> get_sampled_time_slice
       (read_csv [csv_line 0 (0::int) 0 10 ''A'', csv_line 0 5 0 20 ''A'', csv_line 1 7 1 9 ''B''])
       (0, 30) {} 1 [1] = Inr ([], 0)"
proof -
  let ?rows = "[csv_line 0 (0::int) 0 10 ''A'', csv_line 0 5 0 20 ''A'', csv_line 1 7 1 9 ''B'']"
  let ?e = "\<lparr>rank0 = 0, t0 = 5 :: int, rank1 = 0, t1 = 20, kind = ''A'', duration = 15 :: int, line = 1 :: nat\<rparr>"
  note k = kind_filter [of ?rows "(0, 30)" "{''A''}" 1 "[1]"]
  have r: "get_sampled_time_slice (read_csv ?rows) (0, 30) {''A''} 1 [1] = Inr ([?e], 2)"
    by code_simp
  have i: "(1::nat) < length (get_kinds (read_csv ?rows))" by code_simp
  have h: "get_kinds (read_csv ?rows) ! 1 \<notin> {''A''}" by code_simp
  have n: "?rows \<noteq> []" "(0::int) \<le> 1" by simp_all
  from k [THEN conjunct1] r have 1: "kind ?e \<in> {''A''}" by simp
  from k [THEN conjunct2, THEN conjunct1] i h
  have 2: "num_list (read_csv ?rows) (0, 30) {''A''} ! 1 = 0" by blast
  from k [THEN conjunct2, THEN conjunct2] n
  have 3: "get_sampled_time_slice (read_csv ?rows) (0, 30) {} 1 [1] = Inr ([], 0)" by blast
  from r 1 i h 2 n 3 show ?thesis by blast
qed

lemma rows_from_subset:
  assumes "\<forall>b \<in> set bs. case b of (df, lo, hi) \<Rightarrow> 0 \<le> lo \<and> hi \<le> int (length df)"
  shows "set (concat (rows_from acc xs bs)) \<subseteq> set (concat (map fst bs))"
proof
  fix e assume "e \<in> set (concat (rows_from acc xs bs))"
  from rows_from_member [OF this] obtain df lo hi p
    where b: "(df, lo, hi) \<in> set bs" and p: "lo \<le> p" "p < hi" and e: "e = df ! nat p" by blast
  from assms b have "0 \<le> lo" "hi \<le> int (length df)" by auto
  with p have "nat p < length df" by simp
  then have "e \<in> set df" by (simp add: e)
  with b show "e \<in> set (concat (map fst bs))" by force
qed

lemma distinct_block:
  assumes "distinct xs" "distinct df" "0 \<le> lo" "hi \<le> int (length df)"
  shows "distinct (map (\<lambda>s. df ! nat (lo + (s - acc)))
                       (filter (\<lambda>s. acc \<le> s \<and> s < acc + (hi - lo)) xs))"
proof -
  have "inj_on (\<lambda>s. df ! nat (lo + (s - acc))) {s. acc \<le> s \<and> s < acc + (hi - lo)}"
  proof (rule inj_onI)
    fix s s' assume s: "s \<in> {s. acc \<le> s \<and> s < acc + (hi - lo)}"
      and s': "s' \<in> {s. acc \<le> s \<and> s < acc + (hi - lo)}"
      and eq: "df ! nat (lo + (s - acc)) = df ! nat (lo + (s' - acc))"
    from s s' assms(3,4) have "nat (lo + (s - acc)) < length df" "nat (lo + (s' - acc)) < length df"
      by auto
    with eq assms(2) have "nat (lo + (s - acc)) = nat (lo + (s' - acc))"
      by (simp add: nth_eq_iff_index_eq)
    with s s' assms(3) show "s = s'" by auto
  qed
  then have "inj_on (\<lambda>s. df ! nat (lo + (s - acc)))
               (set (filter (\<lambda>s. acc \<le> s \<and> s < acc + (hi - lo)) xs))"
    by (rule inj_on_subset) auto
  with assms(1) show ?thesis by (simp add: distinct_map)
qed

lemma distinct_rows_from:
  assumes "distinct xs" "distinct (concat (map fst bs))"
    and "\<forall>b \<in> set bs. case b of (df, lo, hi) \<Rightarrow> 0 \<le> lo \<and> hi \<le> int (length df)"
  shows "distinct (concat (rows_from acc xs bs))"
  using assms(2,3)
proof (induction bs arbitrary: acc)
  case Nil
  then show ?case by simp
next
  case (Cons b bs)
  obtain df lo hi where b: "b = (df, lo, hi)" by (cases b)
  from Cons.prems b have r: "0 \<le> lo" "hi \<le> int (length df)" and d: "distinct df"
    and rest: "distinct (concat (map fst bs))"
    and disj: "set df \<inter> set (concat (map fst bs)) = {}"
    and ok: "\<forall>b \<in> set bs. case b of (df, lo, hi) \<Rightarrow> 0 \<le> lo \<and> hi \<le> int (length df)"
    by auto
  let ?blk = "map (\<lambda>s. df ! nat (lo + (s - acc)))
                  (filter (\<lambda>s. acc \<le> s \<and> s < acc + (hi - lo)) xs)"
  have 1: "distinct ?blk" using assms(1) d r by (rule distinct_block)
  have 2: "distinct (concat (rows_from (acc + (hi - lo)) xs bs))"
    using rest ok by (rule Cons.IH)
  have "set ?blk \<subseteq> set df" using r by auto
  moreover note rows_from_subset [OF ok, of "acc + (hi - lo)" xs]
  ultimately have 3: "set ?blk \<inter> set (concat (rows_from (acc + (hi - lo)) xs bs)) = {}"
    using disj by blast
  from 1 2 3 show ?case by (simp add: b)
qed

lemma locals_from_distinct:
  "distinct xs \<Longrightarrow> ls \<in> set (locals_from acc xs cs) \<Longrightarrow> distinct ls"
proof (induction cs arbitrary: acc)
  case Nil
  then show ?case by simp
next
  case (Cons c cs)
  have "distinct (map (\<lambda>s. s - acc) (filter (\<lambda>s. acc \<le> s \<and> s < acc + c) xs))"
    using Cons.prems(1) by (simp add: distinct_map inj_on_def)
  with Cons show ?case by auto
qed

lemma labelled_distinct:
  "distinct ks \<Longrightarrow> \<forall>ps \<in> set pss. distinct ps \<Longrightarrow>
   distinct (concat (map (\<lambda>(k, ps). map (Pair k) ps) (zip ks pss)))"
proof (induction ks arbitrary: pss)
  case Nil
  then show ?case by simp
next
  case (Cons k ks)
  show ?case
  proof (cases pss)
    case Nil
    then show ?thesis by simp
  next
    case (Cons ps pss')
    have "fst x \<in> set ks" if "x \<in> set (concat (map (\<lambda>(k, ps). map (Pair k) ps) (zip ks pss')))" for x
      using that by (auto dest: set_zip_leftD)
    then have "set (map (Pair k) ps) \<inter> set (concat (map (\<lambda>(k, ps). map (Pair k) ps) (zip ks pss'))) = {}"
      using Cons.prems(1) by fastforce
    moreover have "distinct (map (Pair k) ps)"
      using Cons.prems(2) Cons by (simp add: distinct_map inj_on_def)
    moreover have "distinct (concat (map (\<lambda>(k, ps). map (Pair k) ps) (zip ks pss')))"
      using Cons.prems Cons by (intro Cons.IH) auto
    ultimately show ?thesis using Cons by simp
  qed
qed

lemma selected_positions_distinct:
  assumes "wf_trace tr" "sorted sampled" "distinct sampled"
    and "ps \<in> set (selected_positions tr time_range kinds sampled)"
  shows "distinct ps"
proof -
  from assms(4) obtain lo ls
    where "ls \<in> set (locals_from 0 sampled
                 (map (\<lambda>(df, lo, hi). hi - lo) (bounds tr time_range kinds)))"
      and ps: "ps = map (\<lambda>i. lo + i) ls"
    unfolding selected_positions_locals [OF assms(1,2)] by (auto dest: set_zip_rightD)
  from locals_from_distinct [OF assms(3) this(1)] show ?thesis
    by (simp add: ps distinct_map inj_on_def)
qed

text \<open>
  Claim C7 (no duplicates): for every query and every valid draw, a call that returns
  never returns an event twice. The positions selected in the frame of a kind are
  pairwise distinct, so the pairs of a kind and a position are, and so are the rows of
  the slice.
\<close>

theorem no_duplicates:
  assumes "get_sampled_time_slice (read_csv rows) time_range kinds num_samples draw = Inr (sl, tot)"
    and "draw_ok (read_csv rows) time_range kinds num_samples draw"
  shows "distinct sl \<and>
    (\<exists>sampled. sampled_idxs (read_csv rows) time_range kinds num_samples draw = Inr sampled \<and>
       distinct (concat (map (\<lambda>(k, ps). map (Pair k) ps)
          (zip (get_kinds (read_csv rows))
               (selected_positions (read_csv rows) time_range kinds sampled)))))"
proof -
  let ?tr = "read_csv rows"
  let ?bs = "bounds ?tr time_range kinds"
  have w: "wf_trace ?tr" by (rule wf_read_csv)
  from assms(1) obtain sampled
    where s: "sampled_idxs ?tr time_range kinds num_samples draw = Inr sampled"
      and sl: "sl = concat (rows_from 0 sampled ?bs)"
    by (auto simp: get_sampled_time_slice_wf [OF w] split: sum.splits if_splits)
  from sampled_props [OF assms(2) s] have ds: "distinct sampled" by simp
  from s have ss: "sorted sampled" by (rule sampled_idxs_sorted)
  have "map fst ?bs = map snd (data ?tr)" by (simp add: bounds_def comp_def)
  with w have "distinct (concat (map fst ?bs))" by (simp add: wf_trace_def)
  with ds have 1: "distinct sl" unfolding sl using bounds_ok by (rule distinct_rows_from)
  from w have "distinct (get_kinds ?tr)"
    by (simp add: wf_trace_def get_kinds_def strict_sorted_iff)
  moreover have "\<forall>ps \<in> set (selected_positions ?tr time_range kinds sampled). distinct ps"
    using selected_positions_distinct [OF w ss ds] by blast
  ultimately have "distinct (concat (map (\<lambda>(k, ps). map (Pair k) ps)
          (zip (get_kinds ?tr) (selected_positions ?tr time_range kinds sampled))))"
    by (rule labelled_distinct)
  with 1 s show ?thesis by blast
qed

theorem no_duplicates_witness:
  "get_sampled_time_slice
     (read_csv [csv_line 0 (0::int) 0 10 ''A'', csv_line 0 5 0 20 ''A'', csv_line 1 7 1 9 ''B''])
     (0, 30) {''A'', ''B''} 2 [2, 0]
   = Inr ([\<lparr>rank0 = 0, t0 = 0, rank1 = 0, t1 = 10, kind = ''A'', duration = 10, line = 0\<rparr>,
           \<lparr>rank0 = 1, t0 = 7, rank1 = 1, t1 = 9, kind = ''B'', duration = 2, line = 2\<rparr>], 3)
   \<and> draw_ok (read_csv [csv_line 0 (0::int) 0 10 ''A'', csv_line 0 5 0 20 ''A'', csv_line 1 7 1 9 ''B''])
       (0, 30) {''A'', ''B''} 2 [2, 0]
   \<and> distinct [\<lparr>rank0 = 0, t0 = 0 :: int, rank1 = 0, t1 = 10, kind = ''A'', duration = 10 :: int, line = 0 :: nat\<rparr>,
           \<lparr>rank0 = 1, t0 = 7, rank1 = 1, t1 = 9, kind = ''B'', duration = 2 :: int, line = 2\<rparr>]"
proof -
  let ?rows = "[csv_line 0 (0::int) 0 10 ''A'', csv_line 0 5 0 20 ''A'', csv_line 1 7 1 9 ''B'']"
  have h1: "get_sampled_time_slice (read_csv ?rows) (0, 30) {''A'', ''B''} 2 [2, 0]
   = Inr ([\<lparr>rank0 = 0, t0 = 0, rank1 = 0, t1 = 10, kind = ''A'', duration = 10, line = 0\<rparr>,
           \<lparr>rank0 = 1, t0 = 7, rank1 = 1, t1 = 9, kind = ''B'', duration = 2, line = 2\<rparr>], 3)"
    by code_simp
  have h2: "draw_ok (read_csv ?rows) (0, 30) {''A'', ''B''} 2 [2, 0]" by code_simp
  from no_duplicates [OF h1 h2, THEN conjunct1] h1 h2 show ?thesis by (intro conjI)
qed

end
